theory Spec2Isabelle
  imports Main "HOL-Library.Word"
begin

section \<open>Snapshots and eventually-file-only snapshots of the storage engine\<close>

text \<open>
  A shallow embedding of \<^verbatim>\<open>snapshot.go\<close>. Go pointers become addresses into explicit
  stores: one store of \<^verbatim>\<open>Snapshot\<close> objects (the registry's root node lives in it as
  well, as it is a \<^verbatim>\<open>Snapshot\<close> embedded in the \<^verbatim>\<open>snapshotList\<close>) and one store of
  \<^verbatim>\<open>EventuallyFileOnlySnapshot\<close> objects. A nil pointer is \<open>None\<close>, and following one
  is the panic \<open>NilDereference\<close>. A panic is the left summand of every result; the
  state a panicking call leaves behind is not part of the result. The model is
  sequential: every method runs from its first to its last line without interleaving,
  so the mutexes are left out, and a closed channel is the flag \<open>es_closed\<close>.
\<close>

subsection \<open>Data\<close>

type_synonym seqnum = "64 word"
type_synonym sref = nat
type_synonym eref = nat
type_synonym vref = nat
type_synonym rsref = nat
type_synonym memTable = nat
type_synonym bytes = string
type_synonym KeyRange = "bytes \<times> bytes"
type_synonym internalKeyRange = "bytes \<times> bytes"
type_synonym IterOptions = "(bytes \<times> bytes) option"

text \<open>The engine the snapshots were created from; the model has one engine.\<close>

datatype dbref = TheDB

datatype error = ErrClosed | ErrSnapshotExcised | ErrNotFound | VisitorError nat

datatype panic =
    PanicErr error
  | PanicMsg string
  | NilDereference
  | CloseOfClosedChannel

record Snapshot =
  s_db :: "dbref option"
  s_seqNum :: seqnum
  s_efos :: "eref option"
  s_list :: "sref option"
  s_prev :: "sref option"
  s_next :: "sref option"

record EFOS =
  es_snap :: "sref option"
  es_readState :: "rsref option"
  es_vers :: "vref option"
  es_protectedRanges :: "KeyRange list"
  es_excised :: bool
  es_db :: "dbref option"
  es_seqNum :: seqnum
  es_closed :: bool

record snapshotIterOpts =
  io_seqNum :: seqnum
  io_vers :: "vref option"
  io_readState :: "rsref option"

text \<open>
  The iterator is built outside this file; a model of it is what it was built from.
\<close>

datatype Iterator = Iter snapshotIterOpts IterOptions

datatype InternalIterator = InternalIter snapshotIterOpts bytes bytes

text \<open>
  Calls into the engine whose bodies are outside this file are recorded in a trace, in
  the order in which they are made.
\<close>

datatype event =
    Version_Ref vref
  | Version_UnrefLocked vref
  | ReadState_ref rsref
  | ReadState_unrefLocked rsref
  | MaybeScheduleCompactionPicker_pickElisionOnly
  | MaybeScheduleObsoleteTableDeletionLocked
  | Transitioned_Broadcast eref
  | NewInternalIter snapshotIterOpts
  | InternalIter_close
  | MaybeScheduleFlush
  | MaybeScheduleDelayedFlush memTable int

record DB =
  d_snapshots :: sref
  d_visibleSeqNum :: seqnum
  d_mem_queue :: "memTable list"
  d_mem_mutable_logSeqNum :: seqnum
  d_mem_mutable :: memTable
  d_currentVersion :: vref
  d_readState :: rsref

type_synonym snap_heap = "sref \<Rightarrow> Snapshot"

record state =
  snaps :: snap_heap
  snap_alloc :: sref
  efoss :: "eref \<Rightarrow> EFOS"
  efos_alloc :: eref
  db :: DB
  trace :: "event list"

definition MaxUint64 :: seqnum where
  "MaxUint64 = 0xFFFFFFFFFFFFFFFF"

definition emit :: "event list \<Rightarrow> state \<Rightarrow> state" where
  "emit es st = st\<lparr>trace := trace st @ es\<rparr>"

subsection \<open>Snapshot: the read entry points\<close>

definition Snapshot_Get ::
  "(bytes \<Rightarrow> sref \<Rightarrow> 'r) \<Rightarrow> state \<Rightarrow> sref \<Rightarrow> bytes \<Rightarrow> panic + 'r" where
  "Snapshot_Get getInternal st s key =
     (if s_db (snaps st s) = None then Inl (PanicErr ErrClosed)
      else Inr (getInternal key s))"

definition Snapshot_NewIterWithContext ::
  "state \<Rightarrow> sref \<Rightarrow> IterOptions \<Rightarrow> panic + (Iterator option \<times> error option)" where
  "Snapshot_NewIterWithContext st s o' =
     (if s_db (snaps st s) = None then Inl (PanicErr ErrClosed)
      else Inr (Some (Iter \<lparr>io_seqNum = s_seqNum (snaps st s), io_vers = None,
                             io_readState = None\<rparr> o'), None))"

definition Snapshot_NewIter ::
  "state \<Rightarrow> sref \<Rightarrow> IterOptions \<Rightarrow> panic + (Iterator option \<times> error option)" where
  "Snapshot_NewIter st s o' = Snapshot_NewIterWithContext st s o'"

definition Snapshot_ScanInternal ::
  "(InternalIterator \<Rightarrow> error option) \<Rightarrow> state \<Rightarrow> sref \<Rightarrow> bytes \<Rightarrow> bytes
     \<Rightarrow> panic + (error option \<times> state)" where
  "Snapshot_ScanInternal scanInternalImpl st s lower upper =
     (if s_db (snaps st s) = None then Inl (PanicErr ErrClosed)
      else
        let sOpts = \<lparr>io_seqNum = s_seqNum (snaps st s), io_vers = None, io_readState = None\<rparr>;
            iter = InternalIter sOpts lower upper
        in Inr (scanInternalImpl iter, emit [NewInternalIter sOpts, InternalIter_close] st))"

subsection \<open>snapshotList\<close>

text \<open>
  A list is named by the address of its root node. Every statement of the source that
  follows a pointer reads the store as the statements before it left it.
\<close>

definition snapshotList_init :: "snap_heap \<Rightarrow> sref \<Rightarrow> snap_heap" where
  "snapshotList_init h l = h(l := (h l)\<lparr>s_prev := Some l, s_next := Some l\<rparr>)"

definition snapshotList_empty :: "snap_heap \<Rightarrow> sref \<Rightarrow> bool" where
  "snapshotList_empty h l = (s_next (h l) = Some l)"

definition snapshotList_earliest :: "snap_heap \<Rightarrow> sref \<Rightarrow> panic + seqnum" where
  "snapshotList_earliest h l =
     (if snapshotList_empty h l then Inr MaxUint64
      else (case s_next (h l) of
              None \<Rightarrow> Inl NilDereference
            | Some n \<Rightarrow> Inr (s_seqNum (h n))))"

definition snapshotList_pushBack :: "snap_heap \<Rightarrow> sref \<Rightarrow> sref \<Rightarrow> panic + snap_heap" where
  "snapshotList_pushBack h l s =
     (if s_list (h s) \<noteq> None \<or> s_prev (h s) \<noteq> None \<or> s_next (h s) \<noteq> None
      then Inl (PanicMsg ''pebble: snapshot list is inconsistent'')
      else
        let h1 = h(s := (h s)\<lparr>s_prev := s_prev (h l)\<rparr>) in
        (case s_prev (h1 s) of
           None \<Rightarrow> Inl NilDereference
         | Some p \<Rightarrow>
             let h2 = h1(p := (h1 p)\<lparr>s_next := Some s\<rparr>);
                 h3 = h2(s := (h2 s)\<lparr>s_next := Some l\<rparr>)
             in (case s_next (h3 s) of
                   None \<Rightarrow> Inl NilDereference
                 | Some n \<Rightarrow>
                     let h4 = h3(n := (h3 n)\<lparr>s_prev := Some s\<rparr>)
                     in Inr (h4(s := (h4 s)\<lparr>s_list := Some l\<rparr>)))))"

definition snapshotList_remove :: "snap_heap \<Rightarrow> sref \<Rightarrow> sref \<Rightarrow> panic + snap_heap" where
  "snapshotList_remove h l s =
     (if s = l then Inl (PanicMsg ''pebble: cannot remove snapshot list root node'')
      else if s_list (h s) \<noteq> Some l
      then Inl (PanicMsg ''pebble: snapshot list is inconsistent'')
      else
        (case s_prev (h s) of
           None \<Rightarrow> Inl NilDereference
         | Some p \<Rightarrow>
             let h1 = h(p := (h p)\<lparr>s_next := s_next (h s)\<rparr>) in
             (case s_next (h1 s) of
                None \<Rightarrow> Inl NilDereference
              | Some n \<Rightarrow>
                  let h2 = h1(n := (h1 n)\<lparr>s_prev := s_prev (h1 s)\<rparr>)
                  in Inr (h2(s := (h2 s)\<lparr>s_next := None, s_prev := None,
                                          s_list := None\<rparr>)))))"

subsection \<open>Snapshot: closing\<close>

definition Snapshot_closeLocked :: "state \<Rightarrow> sref \<Rightarrow> panic + (error option \<times> state)" where
  "Snapshot_closeLocked st s =
     (case s_db (snaps st s) of
        None \<Rightarrow> Inl NilDereference
      | Some _ \<Rightarrow>
          (case snapshotList_remove (snaps st) (d_snapshots (db st)) s of
             Inl p \<Rightarrow> Inl p
           | Inr h1 \<Rightarrow>
               (case snapshotList_earliest h1 (d_snapshots (db st)) of
                  Inl p \<Rightarrow> Inl p
                | Inr e \<Rightarrow>
                    let st1 = st\<lparr>snaps := h1\<rparr>;
                        st2 = (if e > s_seqNum (h1 s)
                               then emit [MaybeScheduleCompactionPicker_pickElisionOnly] st1
                               else st1)
                    in Inr (None, st2\<lparr>snaps := (snaps st2)(s := (snaps st2 s)\<lparr>s_db := None\<rparr>)\<rparr>))))"

definition Snapshot_Close :: "state \<Rightarrow> sref \<Rightarrow> panic + (error option \<times> state)" where
  "Snapshot_Close st s =
     (if s_db (snaps st s) = None then Inl (PanicErr ErrClosed)
      else Snapshot_closeLocked st s)"

subsection \<open>EventuallyFileOnlySnapshot: construction\<close>

text \<open>
  The overlap test \<^verbatim>\<open>ingestMemtableOverlaps\<close> is outside this file and is a parameter
  (already applied to the comparer). The loop over the queue stops at the first
  overlapping memtable.
\<close>

primrec queueIsFileOnly ::
  "(memTable \<Rightarrow> internalKeyRange list \<Rightarrow> bool) \<Rightarrow> memTable list \<Rightarrow> internalKeyRange list \<Rightarrow> bool"
where
  "queueIsFileOnly ingestMemtableOverlaps [] internalKeyRanges = True"
| "queueIsFileOnly ingestMemtableOverlaps (mem # queue) internalKeyRanges =
     (if ingestMemtableOverlaps mem internalKeyRanges then False
      else queueIsFileOnly ingestMemtableOverlaps queue internalKeyRanges)"

text \<open>
  \<^verbatim>\<open>currentVersion()\<close> hands out the engine's current version, which the source then
  references itself (\<^verbatim>\<open>Ref()\<close>); \<^verbatim>\<open>loadReadState()\<close> hands out the current read state
  with one reference already taken, which the trace records as \<open>ReadState_ref\<close>.
\<close>

definition DB_makeEventuallyFileOnlySnapshot ::
  "(memTable \<Rightarrow> internalKeyRange list \<Rightarrow> bool) \<Rightarrow> state \<Rightarrow> KeyRange list
     \<Rightarrow> internalKeyRange list \<Rightarrow> panic + (eref \<times> state)" where
  "DB_makeEventuallyFileOnlySnapshot ingestMemtableOverlaps st keyRanges internalKeyRanges =
     (let seqNum = d_visibleSeqNum (db st);
          isFileOnly = queueIsFileOnly ingestMemtableOverlaps (d_mem_queue (db st))
                         internalKeyRanges;
          es = efos_alloc st;
          st1 = st\<lparr>efoss := (efoss st)(es :=
                   \<lparr>es_snap = None, es_readState = None, es_vers = None,
                    es_protectedRanges = keyRanges, es_excised = False,
                    es_db = Some TheDB, es_seqNum = seqNum, es_closed = False\<rparr>),
                 efos_alloc := Suc es\<rparr>
      in if isFileOnly then
           let v = d_currentVersion (db st1);
               st2 = st1\<lparr>efoss := (efoss st1)(es := (efoss st1 es)\<lparr>es_vers := Some v\<rparr>)\<rparr>
           in Inr (es, emit [Version_Ref v] st2)
         else
           let s = snap_alloc st1;
               st2 = st1\<lparr>snaps := (snaps st1)(s :=
                        \<lparr>s_db = Some TheDB, s_seqNum = seqNum, s_efos = None,
                         s_list = None, s_prev = None, s_next = None\<rparr>),
                      snap_alloc := Suc s\<rparr>;
               st3 = st2\<lparr>snaps := (snaps st2)(s := (snaps st2 s)\<lparr>s_efos := Some es\<rparr>)\<rparr>;
               st4 = st3\<lparr>efoss := (efoss st3)(es := (efoss st3 es)\<lparr>es_snap := Some s\<rparr>)\<rparr>;
               r = d_readState (db st4);
               st5 = emit [ReadState_ref r]
                       (st4\<lparr>efoss := (efoss st4)(es := (efoss st4 es)\<lparr>es_readState := Some r\<rparr>)\<rparr>)
           in (case snapshotList_pushBack (snaps st5) (d_snapshots (db st5)) s of
                 Inl p \<Rightarrow> Inl p
               | Inr h \<Rightarrow> Inr (es, st5\<lparr>snaps := h\<rparr>)))"

subsection \<open>EventuallyFileOnlySnapshot: transition, excision, close\<close>

text \<open>
  The version handed to the transition has been referenced by the caller, so it is an
  address and never nil.
\<close>

definition EFOS_transitionToFileOnlySnapshot ::
  "state \<Rightarrow> eref \<Rightarrow> vref \<Rightarrow> panic + (error option \<times> state)" where
  "EFOS_transitionToFileOnlySnapshot st es vers =
     (let e = efoss st es in
      if es_closed e then Inr (Some ErrClosed, emit [Version_UnrefLocked vers] st)
      else if es_snap e = None
      then Inl (PanicMsg ''pebble: tried to transition an eventually-file-only-snapshot twice'')
      else
        let oldSnap = es_snap e;
            oldReadState = es_readState e;
            st1 = st\<lparr>efoss := (efoss st)(es :=
                     e\<lparr>es_vers := Some vers, es_snap := None, es_readState := None\<rparr>)\<rparr>;
            st2 = emit [Transitioned_Broadcast es] st1
        in (case oldReadState of
              None \<Rightarrow> Inl NilDereference
            | Some r \<Rightarrow>
                (case oldSnap of
                   None \<Rightarrow> Inl NilDereference
                 | Some s \<Rightarrow> Snapshot_closeLocked (emit [ReadState_unrefLocked r] st2) s)))"

definition EFOS_releaseReadState :: "state \<Rightarrow> eref \<Rightarrow> panic + state" where
  "EFOS_releaseReadState st es =
     (let e = efoss st es in
      if \<not> es_excised e
      then Inl (PanicMsg
        ''pebble: releasing read state of eventually-file-only-snapshot but was not excised'')
      else
        (case es_readState e of
           None \<Rightarrow> Inr st
         | Some r \<Rightarrow>
             (case es_db e of
                None \<Rightarrow> Inl NilDereference
              | Some _ \<Rightarrow>
                  Inr (emit [ReadState_unrefLocked r,
                             MaybeScheduleObsoleteTableDeletionLocked] st))))"

text \<open>
  \<^verbatim>\<open>WaitForFileOnlySnapshot\<close> up to its first suspension: it either returns, or blocks
  on the engine's flush and compaction condition, or blocks on the transition
  condition. \<open>earliestUnflushedSeqNum\<close> is what the engine answers to
  \<^verbatim>\<open>getEarliestUnflushedSeqNumLocked()\<close>; \<open>dur\<close> is the duration in nanoseconds.
\<close>

datatype wait_outcome =
    Returned "error option"
  | Blocked_on_compact_cond
  | Blocked_on_transitioned

definition EFOS_WaitForFileOnlySnapshot ::
  "seqnum \<Rightarrow> state \<Rightarrow> eref \<Rightarrow> int \<Rightarrow> panic + (wait_outcome \<times> state)" where
  "EFOS_WaitForFileOnlySnapshot earliestUnflushedSeqNum st es dur =
     (let e = efoss st es in
      if es_vers e \<noteq> None then Inr (Returned None, st)
      else
        (case es_db e of
           None \<Rightarrow> Inl NilDereference
         | Some _ \<Rightarrow>
             if earliestUnflushedSeqNum < es_seqNum e then
               (if es_closed e then Inr (Returned (Some ErrClosed), st)
                else if d_mem_mutable_logSeqNum (db st) < es_seqNum e \<and> dur > 0
                then Inr (Blocked_on_compact_cond,
                          emit [MaybeScheduleDelayedFlush (d_mem_mutable (db st)) dur] st)
                else Inr (Blocked_on_compact_cond, emit [MaybeScheduleFlush] st))
             else if es_excised e then Inr (Returned (Some ErrSnapshotExcised), st)
             else if es_vers e = None then Inr (Blocked_on_transitioned, st)
             else Inr (Returned None, st)))"

definition EFOS_Close :: "state \<Rightarrow> eref \<Rightarrow> panic + (error option \<times> state)" where
  "EFOS_Close st es =
     (if es_closed (efoss st es) then Inl CloseOfClosedChannel
      else
        let st1 = st\<lparr>efoss := (efoss st)(es := (efoss st es)\<lparr>es_closed := True\<rparr>)\<rparr> in
        (case es_db (efoss st1 es) of
           None \<Rightarrow> Inl NilDereference
         | Some _ \<Rightarrow>
             (case (case es_snap (efoss st1 es) of
                      None \<Rightarrow> Inr (None, st1)
                    | Some s \<Rightarrow> Snapshot_closeLocked st1 s) of
                Inl p \<Rightarrow> Inl p
              | Inr (Some err, st2) \<Rightarrow> Inr (Some err, st2)
              | Inr (None, st2) \<Rightarrow>
                  let st3 = (case es_readState (efoss st2 es) of
                               None \<Rightarrow> st2
                             | Some r \<Rightarrow>
                                 emit [ReadState_unrefLocked r,
                                       MaybeScheduleObsoleteTableDeletionLocked] st2);
                      st4 = (case es_vers (efoss st3 es) of
                               None \<Rightarrow> st3
                             | Some v \<Rightarrow> emit [Version_UnrefLocked v] st3)
                  in Inr (None, st4))))"

subsection \<open>EventuallyFileOnlySnapshot: the read entry points\<close>

definition EFOS_Get :: "state \<Rightarrow> eref \<Rightarrow> bytes \<Rightarrow> panic + (bytes \<times> error option)" where
  "EFOS_Get st es key = Inl (PanicMsg ''unimplemented'')"

definition EFOS_NewIterWithContext ::
  "state \<Rightarrow> eref \<Rightarrow> IterOptions \<Rightarrow> panic + (Iterator option \<times> error option)" where
  "EFOS_NewIterWithContext st es o' =
     (let e = efoss st es in
      if es_closed e then Inl (PanicErr ErrClosed)
      else
        (case es_vers e of
           Some v \<Rightarrow>
             (case es_db e of
                None \<Rightarrow> Inl NilDereference
              | Some _ \<Rightarrow>
                  Inr (Some (Iter \<lparr>io_seqNum = es_seqNum e, io_vers = Some v,
                                    io_readState = None\<rparr> o'), None))
         | None \<Rightarrow>
             if es_excised e then Inr (None, Some ErrSnapshotExcised)
             else
               (case es_db e of
                  None \<Rightarrow> Inl NilDereference
                | Some _ \<Rightarrow>
                    Inr (Some (Iter \<lparr>io_seqNum = es_seqNum e, io_vers = None,
                                      io_readState = es_readState e\<rparr> o'), None))))"

definition EFOS_NewIter ::
  "state \<Rightarrow> eref \<Rightarrow> IterOptions \<Rightarrow> panic + (Iterator option \<times> error option)" where
  "EFOS_NewIter st es o' = EFOS_NewIterWithContext st es o'"

definition EFOS_ScanInternal ::
  "(InternalIterator \<Rightarrow> error option) \<Rightarrow> state \<Rightarrow> eref \<Rightarrow> bytes \<Rightarrow> bytes
     \<Rightarrow> panic + (error option \<times> state)" where
  "EFOS_ScanInternal scanInternalImpl st es lower upper =
     (let e = efoss st es in
      if es_db e = None then Inl (PanicErr ErrClosed)
      else if es_excised e then Inr (Some ErrSnapshotExcised, st)
      else
        let sOpts = (if es_vers e \<noteq> None
                     then \<lparr>io_seqNum = es_seqNum e, io_vers = es_vers e, io_readState = None\<rparr>
                     else \<lparr>io_seqNum = es_seqNum e, io_vers = None,
                           io_readState = es_readState e\<rparr>);
            iter = InternalIter sOpts lower upper
        in Inr (scanInternalImpl iter, emit [NewInternalIter sOpts, InternalIter_close] st))"

subsection \<open>The registry as a list of addresses\<close>

text \<open>
  \<open>chain h p xs r\<close>: starting at \<open>p\<close>, the \<^verbatim>\<open>next\<close> pointers visit \<open>xs\<close> in order and
  then reach \<open>r\<close>, and the \<^verbatim>\<open>prev\<close> pointers lead back the same way.
\<close>

fun chain :: "snap_heap \<Rightarrow> sref \<Rightarrow> sref list \<Rightarrow> sref \<Rightarrow> bool" where
  "chain h p [] r = (s_next (h p) = Some r \<and> s_prev (h r) = Some p)"
| "chain h p (x # xs) r = (s_next (h p) = Some x \<and> s_prev (h x) = Some p \<and> chain h x xs r)"

text \<open>The Snapshots that are linked into the list \<open>l\<close>: their \<^verbatim>\<open>list\<close> field says so.\<close>

definition linked :: "snap_heap \<Rightarrow> sref \<Rightarrow> sref set" where
  "linked h l = {a. s_list (h a) = Some l}"

definition links :: "snap_heap \<Rightarrow> sref \<Rightarrow> sref list \<Rightarrow> bool" where
  "links h l xs = (chain h l xs l \<and> distinct xs \<and> l \<notin> set xs \<and> linked h l = set xs)"

definition registry :: "snap_heap \<Rightarrow> sref \<Rightarrow> sref list \<Rightarrow> bool" where
  "registry h l xs = (links h l xs \<and> sorted (map (\<lambda>a. s_seqNum (h a)) xs))"

text \<open>
  The stores a list can be in: it is initialised while no Snapshot claims to be linked
  into it, then Snapshots are pushed (each with a sequence number that is at least
  that of every linked one) and removed, in any order, as long as neither panics.
\<close>

inductive list_reachable :: "sref \<Rightarrow> snap_heap \<Rightarrow> bool" for l :: sref where
  reach_init: "linked h l = {} \<Longrightarrow> list_reachable l (snapshotList_init h l)"
| reach_pushBack:
    "list_reachable l h \<Longrightarrow> snapshotList_pushBack h l s = Inr h' \<Longrightarrow>
     (\<forall>a \<in> linked h l. s_seqNum (h a) \<le> s_seqNum (h s)) \<Longrightarrow> list_reachable l h'"
| reach_remove:
    "list_reachable l h \<Longrightarrow> snapshotList_remove h l s = Inr h' \<Longrightarrow> list_reachable l h'"

subsection \<open>The two phases of an EventuallyFileOnlySnapshot\<close>

definition memtable_pinned :: "EFOS \<Rightarrow> bool" where
  "memtable_pinned e = (es_snap e \<noteq> None \<and> es_readState e \<noteq> None \<and> es_vers e = None)"

definition file_only :: "EFOS \<Rightarrow> bool" where
  "file_only e = (es_snap e = None \<and> es_readState e = None \<and> es_vers e \<noteq> None)"

text \<open>
  The states in which the EFOS at address \<open>es\<close> is between the end of its construction
  and its \<^verbatim>\<open>Close\<close>: it has been made, and then any method of this file has run on any
  object, except \<^verbatim>\<open>Close\<close> on \<open>es\<close> itself. The excision path of the engine sets the
  \<^verbatim>\<open>excised\<close> flag of an EFOS from outside this file. The engine moves on in between
  (rule \<open>efos_engine\<close>): writes advance the visible sequence number, memtables are
  rotated and flushed, versions and read states are replaced, plain Snapshots are
  created and closed, calls are traced. Such a step may change everything of the state
  but the store of EFOS objects, whose fields only the steps above write.
\<close>

inductive efos_reach ::
  "(memTable \<Rightarrow> internalKeyRange list \<Rightarrow> bool) \<Rightarrow> eref \<Rightarrow> state \<Rightarrow> bool"
  for ovl :: "memTable \<Rightarrow> internalKeyRange list \<Rightarrow> bool" and es :: eref where
  efos_made:
    "DB_makeEventuallyFileOnlySnapshot ovl st0 krs ikrs = Inr (es, st) \<Longrightarrow> efos_reach ovl es st"
| efos_transition:
    "efos_reach ovl es st \<Longrightarrow> EFOS_transitionToFileOnlySnapshot st es' v = Inr (r, st') \<Longrightarrow>
     efos_reach ovl es st'"
| efos_excise:
    "efos_reach ovl es st \<Longrightarrow>
     efos_reach ovl es (st\<lparr>efoss := (efoss st)(es' := (efoss st es')\<lparr>es_excised := True\<rparr>)\<rparr>)"
| efos_release:
    "efos_reach ovl es st \<Longrightarrow> EFOS_releaseReadState st es' = Inr st' \<Longrightarrow> efos_reach ovl es st'"
| efos_wait:
    "efos_reach ovl es st \<Longrightarrow> EFOS_WaitForFileOnlySnapshot eu st es' dur = Inr (w, st') \<Longrightarrow>
     efos_reach ovl es st'"
| efos_scan:
    "efos_reach ovl es st \<Longrightarrow> EFOS_ScanInternal f st es' lower upper = Inr (r, st') \<Longrightarrow>
     efos_reach ovl es st'"
| efos_make_other:
    "efos_reach ovl es st \<Longrightarrow> DB_makeEventuallyFileOnlySnapshot ovl st krs ikrs = Inr (es', st') \<Longrightarrow>
     efos_reach ovl es st'"
| efos_close_other:
    "efos_reach ovl es st \<Longrightarrow> es' \<noteq> es \<Longrightarrow> EFOS_Close st es' = Inr (r, st') \<Longrightarrow>
     efos_reach ovl es st'"
| efos_snapshot_close:
    "efos_reach ovl es st \<Longrightarrow> Snapshot_Close st s = Inr (r, st') \<Longrightarrow> efos_reach ovl es st'"
| efos_snapshot_scan:
    "efos_reach ovl es st \<Longrightarrow> Snapshot_ScanInternal f st s lower upper = Inr (r, st') \<Longrightarrow>
     efos_reach ovl es st'"
| efos_engine:
    "efos_reach ovl es st \<Longrightarrow> efoss st' = efoss st \<Longrightarrow> efos_alloc st' = efos_alloc st \<Longrightarrow>
     efos_reach ovl es st'"

text \<open>What every such state satisfies.\<close>

definition efos_inv :: "eref \<Rightarrow> state \<Rightarrow> bool" where
  "efos_inv es st =
     (es < efos_alloc st \<and> \<not> es_closed (efoss st es) \<and>
      (memtable_pinned (efoss st es) \<or> file_only (efoss st es)))"

subsection \<open>Example states\<close>

text \<open>
  An engine just opened: the registry is initialised and empty, the visible sequence
  number is 10, two memtables are queued. The examples below are what the code makes
  of it.
\<close>

definition nilSnapshot :: Snapshot where
  "nilSnapshot = \<lparr>s_db = None, s_seqNum = 0, s_efos = None, s_list = None,
                  s_prev = None, s_next = None\<rparr>"

definition nilEFOS :: EFOS where
  "nilEFOS = \<lparr>es_snap = None, es_readState = None, es_vers = None,
              es_protectedRanges = [], es_excised = False, es_db = None,
              es_seqNum = 0, es_closed = False\<rparr>"

definition ex_db :: DB where
  "ex_db = \<lparr>d_snapshots = 0, d_visibleSeqNum = 10, d_mem_queue = [0, 1],
            d_mem_mutable_logSeqNum = 8, d_mem_mutable = 1, d_currentVersion = 7,
            d_readState = 3\<rparr>"

definition st_open :: state where
  "st_open = \<lparr>snaps = snapshotList_init (\<lambda>_. nilSnapshot) 0, snap_alloc = 1,
              efoss = (\<lambda>_. nilEFOS), efos_alloc = 0, db = ex_db, trace = []\<rparr>"

definition ovl_none :: "memTable \<Rightarrow> internalKeyRange list \<Rightarrow> bool" where
  "ovl_none mem ikrs = False"

definition ovl_second :: "memTable \<Rightarrow> internalKeyRange list \<Rightarrow> bool" where
  "ovl_second mem ikrs = (mem = 1)"

definition st_of :: "panic + ('a \<times> state) \<Rightarrow> state" where
  "st_of r = (case r of Inl _ \<Rightarrow> st_open | Inr (_, st) \<Rightarrow> st)"

definition st_file_only :: state where
  "st_file_only =
     st_of (DB_makeEventuallyFileOnlySnapshot ovl_none st_open [(''a'', ''c'')] [(''a'', ''c'')])"

definition st_pinned :: state where
  "st_pinned =
     st_of (DB_makeEventuallyFileOnlySnapshot ovl_second st_open [(''a'', ''c'')] [(''a'', ''c'')])"

definition excise :: "eref \<Rightarrow> state \<Rightarrow> state" where
  "excise es st = st\<lparr>efoss := (efoss st)(es := (efoss st es)\<lparr>es_excised := True\<rparr>)\<rparr>"

definition st_file_only_closed :: state where
  "st_file_only_closed = st_of (EFOS_Close st_file_only 0)"

definition st_pinned_closed :: state where
  "st_pinned_closed = st_of (EFOS_Close st_pinned 0)"

text \<open>The engine has moved on: writes have advanced the visible sequence number.\<close>

definition st_pinned_later :: state where
  "st_pinned_later = st_pinned\<lparr>db := (db st_pinned)\<lparr>d_visibleSeqNum := 20\<rparr>\<rparr>"

text \<open>A store with one Snapshot whose sequence number is the largest 64-bit value.\<close>

definition heap_max :: snap_heap where
  "heap_max =
     (case snapshotList_pushBack
             (snapshotList_init
                ((\<lambda>_. nilSnapshot)(1 := nilSnapshot\<lparr>s_db := Some TheDB,
                                                        s_seqNum := MaxUint64\<rparr>)) 0)
             0 1 of
        Inl _ \<Rightarrow> (\<lambda>_. nilSnapshot)
      | Inr h \<Rightarrow> h)"

text \<open>A store with two Snapshots, of sequence numbers 5 and 9, pushed in this order.\<close>

definition heap_two :: snap_heap where
  "heap_two =
     (let h0 = snapshotList_init
                 ((\<lambda>_. nilSnapshot)(1 := nilSnapshot\<lparr>s_db := Some TheDB, s_seqNum := 5\<rparr>,
                                    2 := nilSnapshot\<lparr>s_db := Some TheDB, s_seqNum := 9\<rparr>)) 0
      in case snapshotList_pushBack h0 0 1 of
           Inl _ \<Rightarrow> h0
         | Inr h1 \<Rightarrow> (case snapshotList_pushBack h1 0 2 of Inl _ \<Rightarrow> h0 | Inr h2 \<Rightarrow> h2))"

definition st_two :: state where
  "st_two = st_open\<lparr>snaps := heap_two, snap_alloc := 3\<rparr>"

definition st_max :: state where
  "st_max = st_open\<lparr>snaps := heap_max, snap_alloc := 2\<rparr>"

section \<open>Proofs\<close>

subsection \<open>The registry's links under pushBack and remove\<close>

lemma chain_append:
  "chain h p (xs @ y # ys) r = (chain h p xs y \<and> chain h y ys r)"
  by (induction xs arbitrary: p) auto

lemma chain_cong:
  "\<forall>a \<in> set (p # xs). s_next (h' a) = s_next (h a) \<Longrightarrow>
   \<forall>a \<in> set (xs @ [r]). s_prev (h' a) = s_prev (h a) \<Longrightarrow>
   chain h' p xs r = chain h p xs r"
  by (induction xs arbitrary: p) auto

lemma chain_retarget:
  "chain h p xs r \<Longrightarrow>
   s_next (h' (last (p # xs))) = Some r' \<Longrightarrow> s_prev (h' r') = Some (last (p # xs)) \<Longrightarrow>
   \<forall>a \<in> set (butlast (p # xs)). s_next (h' a) = s_next (h a) \<Longrightarrow>
   \<forall>a \<in> set xs. s_prev (h' a) = s_prev (h a) \<Longrightarrow>
   chain h' p xs r'"
proof (induction xs arbitrary: p)
  case Nil
  then show ?case by simp
next
  case (Cons x xs)
  from Cons.prems have "chain h x xs r" by simp
  moreover from Cons.prems have "s_next (h' (last (x # xs))) = Some r'"
    and "s_prev (h' r') = Some (last (x # xs))" by simp_all
  moreover from Cons.prems have "\<forall>a \<in> set (butlast (x # xs)). s_next (h' a) = s_next (h a)"
    by simp
  moreover from Cons.prems have "\<forall>a \<in> set xs. s_prev (h' a) = s_prev (h a)" by simp
  ultimately have "chain h' x xs r'" by (rule Cons.IH)
  with Cons.prems show ?case by simp
qed

lemma chain_last:
  "chain h p xs r \<Longrightarrow> s_next (h (last (p # xs))) = Some r \<and> s_prev (h r) = Some (last (p # xs))"
  by (induction xs arbitrary: p) auto

lemma links_empty_iff: "links h l xs \<Longrightarrow> snapshotList_empty h l = (xs = [])"
  by (cases xs) (auto simp: links_def snapshotList_empty_def)

lemma links_earliest:
  "links h l xs \<Longrightarrow> snapshotList_earliest h l = Inr (case xs of [] \<Rightarrow> MaxUint64 | x # _ \<Rightarrow> s_seqNum (h x))"
  by (cases xs) (auto simp: links_def snapshotList_earliest_def snapshotList_empty_def)

lemma links_init: "linked h l = {} \<Longrightarrow> links (snapshotList_init h l) l []"
  by (auto simp: links_def snapshotList_init_def linked_def)


lemma pushBack_result:
  assumes u: "s_list (h s) = None" "s_prev (h s) = None" "s_next (h s) = None"
    and pl: "s_prev (h l) = Some p" and ne: "p \<noteq> s" "s \<noteq> l"
  shows "snapshotList_pushBack h l s =
    Inr (\<lambda>a. if a = s then (h s)\<lparr>s_prev := Some p, s_next := Some l, s_list := Some l\<rparr>
              else if a = l then (if l = p then (h l)\<lparr>s_next := Some s, s_prev := Some s\<rparr>
                                  else (h l)\<lparr>s_prev := Some s\<rparr>)
              else if a = p then (h p)\<lparr>s_next := Some s\<rparr> else h a)"
  unfolding snapshotList_pushBack_def Let_def
  using u pl ne by (simp add: fun_eq_iff)


lemma last_notin_butlast:
  "distinct zs \<Longrightarrow> zs \<noteq> [] \<Longrightarrow> a \<in> set (butlast zs) \<Longrightarrow> a \<noteq> last zs"
  by (metis append_butlast_last_id distinct_append disjoint_iff list.set_intros(1))

lemma links_pushBack:
  assumes L: "links h l xs" and s: "s \<notin> set xs" "s \<noteq> l"
    and u: "s_list (h s) = None" "s_prev (h s) = None" "s_next (h s) = None"
  shows "\<exists>h'. snapshotList_pushBack h l s = Inr h' \<and> links h' l (xs @ [s]) \<and>
     (\<forall>a. s_seqNum (h' a) = s_seqNum (h a) \<and> s_db (h' a) = s_db (h a) \<and>
          s_efos (h' a) = s_efos (h a))"
proof -
  let ?p = "last (l # xs)"
  let ?h' = "\<lambda>a. if a = s then (h s)\<lparr>s_prev := Some ?p, s_next := Some l, s_list := Some l\<rparr>
              else if a = l then (if l = ?p then (h l)\<lparr>s_next := Some s, s_prev := Some s\<rparr>
                                  else (h l)\<lparr>s_prev := Some s\<rparr>)
              else if a = ?p then (h ?p)\<lparr>s_next := Some s\<rparr> else h a"
  from L have ch: "chain h l xs l" and d: "distinct xs" and l: "l \<notin> set xs"
    and lk: "linked h l = set xs" by (simp_all add: links_def)
  from chain_last[OF ch] have pl: "s_prev (h l) = Some ?p" by simp
  have pin: "?p \<in> set (l # xs)" by (rule last_in_set) simp
  have ps: "?p \<noteq> s" using s pin by auto
  have eq: "snapshotList_pushBack h l s = Inr ?h'"
    by (rule pushBack_result[OF u pl ps s(2)])
  have dl: "distinct (l # xs)" using d l by simp
  have c1: "chain ?h' l xs s"
  proof (rule chain_retarget[OF ch])
    show "s_next (?h' (last (l # xs))) = Some s" using ps by simp
    show "s_prev (?h' s) = Some (last (l # xs))" by simp
    show "\<forall>a\<in>set (butlast (l # xs)). s_next (?h' a) = s_next (h a)"
    proof
      fix a assume a: "a \<in> set (butlast (l # xs))"
      have "a \<noteq> ?p" using last_notin_butlast[OF dl _ a] by simp
      moreover from a have "a \<in> set (l # xs)" by (rule in_set_butlastD)
      then have "a \<noteq> s" using s by auto
      ultimately show "s_next (?h' a) = s_next (h a)" by simp
    qed
    show "\<forall>a\<in>set xs. s_prev (?h' a) = s_prev (h a)" using s l by auto
  qed
  have c2: "chain ?h' s [] l" using s by simp
  have "chain ?h' l (xs @ [s]) l" using c1 c2 by (simp only: chain_append simp_thms)
  moreover have "linked ?h' l = set (xs @ [s])"
    using lk s l pin unfolding linked_def by (auto split: if_splits)
  ultimately have "links ?h' l (xs @ [s])" using d l s by (simp add: links_def)
  moreover have "\<forall>a. s_seqNum (?h' a) = s_seqNum (h a) \<and> s_db (?h' a) = s_db (h a) \<and>
      s_efos (?h' a) = s_efos (h a)"
    by simp
  ultimately show ?thesis using eq by blast
qed


lemma remove_result:
  assumes "s \<noteq> l" "s_list (h s) = Some l" "s_prev (h s) = Some p" "s_next (h s) = Some n"
    "p \<noteq> s" "n \<noteq> s"
  shows "snapshotList_remove h l s =
    Inr (\<lambda>a. if a = s then (h s)\<lparr>s_next := None, s_prev := None, s_list := None\<rparr>
              else if a = n then (if n = p then (h p)\<lparr>s_next := Some n, s_prev := Some p\<rparr>
                                  else (h n)\<lparr>s_prev := Some p\<rparr>)
              else if a = p then (h p)\<lparr>s_next := Some n\<rparr> else h a)"
  unfolding snapshotList_remove_def Let_def
  using assms by (simp add: fun_eq_iff)

lemma chain_first:
  "chain h p xs r \<Longrightarrow> s_next (h p) = Some (hd (xs @ [r]))"
  by (cases xs) auto

lemma links_remove:
  assumes L: "links h l (ys @ s # zs)"
  shows "\<exists>h'. snapshotList_remove h l s = Inr h' \<and> links h' l (ys @ zs) \<and>
     (\<forall>a. s_seqNum (h' a) = s_seqNum (h a) \<and> s_db (h' a) = s_db (h a) \<and>
          s_efos (h' a) = s_efos (h a))"
proof -
  let ?p = "last (l # ys)"
  let ?n = "hd (zs @ [l])"
  let ?h' = "\<lambda>a. if a = s then (h s)\<lparr>s_next := None, s_prev := None, s_list := None\<rparr>
              else if a = ?n then (if ?n = ?p then (h ?p)\<lparr>s_next := Some ?n, s_prev := Some ?p\<rparr>
                                  else (h ?n)\<lparr>s_prev := Some ?p\<rparr>)
              else if a = ?p then (h ?p)\<lparr>s_next := Some ?n\<rparr> else h a"
  from L have ch: "chain h l (ys @ s # zs) l" and d: "distinct (ys @ s # zs)"
    and l: "l \<notin> set (ys @ s # zs)" and lk: "linked h l = set (ys @ s # zs)"
    by (simp_all add: links_def)
  from ch have cy: "chain h l ys s" and cz: "chain h s zs l" by (simp_all add: chain_append)
  have sl: "s \<noteq> l" using l by auto
  have ls: "s_list (h s) = Some l" using lk by (auto simp: linked_def)
  from chain_last[OF cy] have ps: "s_prev (h s) = Some ?p" by simp
  from chain_first[OF cz] have ns: "s_next (h s) = Some ?n" .
  have pin: "?p \<in> set (l # ys)" by (rule last_in_set) simp
  have nin: "?n \<in> set (zs @ [l])" by (rule hd_in_set) simp
  have pne: "?p \<noteq> s" using pin d sl by auto
  have nne: "?n \<noteq> s" using nin d sl by auto
  have eq: "snapshotList_remove h l s = Inr ?h'"
    using sl ls ps ns pne nne by (rule remove_result)
  have dl: "distinct (l # ys)" using d l by simp
  have bl: "\<forall>a\<in>set (butlast (l # ys)). s_next (?h' a) = s_next (h a)"
  proof
    fix a assume a: "a \<in> set (butlast (l # ys))"
    have "a \<noteq> ?p" using last_notin_butlast[OF dl _ a] by simp
    moreover from a have "a \<in> set (l # ys)" by (rule in_set_butlastD)
    then have "a \<noteq> s" using d sl by auto
    ultimately show "s_next (?h' a) = s_next (h a)" by simp
  qed
  have pv: "\<forall>a\<in>set ys. s_prev (?h' a) = s_prev (h a)"
  proof
    fix a assume a: "a \<in> set ys"
    then have "a \<noteq> s" "a \<noteq> ?n" using d l nin by auto
    then show "s_prev (?h' a) = s_prev (h a)" by simp
  qed
  have c: "chain ?h' l (ys @ zs) l"
  proof (cases zs)
    case Nil
    have "chain ?h' l ys l"
    proof (rule chain_retarget[OF cy _ _ bl pv])
      show "s_next (?h' (last (l # ys))) = Some l" using pne Nil by simp
      show "s_prev (?h' l) = Some (last (l # ys))" using sl Nil by simp
    qed
    then show ?thesis using Nil by simp
  next
    case (Cons z zs')
    have zn: "?n = z" using Cons by simp
    have zp: "z \<noteq> ?p" using pin d l Cons by auto
    have zs: "z \<noteq> s" using d Cons by auto
    have c1: "chain ?h' l ys z"
    proof (rule chain_retarget[OF cy _ _ bl pv])
      show "s_next (?h' (last (l # ys))) = Some z" using pne zp zn by simp
      show "s_prev (?h' z) = Some (last (l # ys))" using zs zp zn by simp
    qed
    from cz Cons have cz': "chain h z zs' l" by simp
    have "chain ?h' z zs' l = chain h z zs' l"
    proof (rule chain_cong)
      show "\<forall>a\<in>set (z # zs'). s_next (?h' a) = s_next (h a)"
      proof
        fix a assume "a \<in> set (z # zs')"
        then have "a \<noteq> s" "a \<noteq> ?p" using d l pin Cons by auto
        then show "s_next (?h' a) = s_next (h a)" by simp
      qed
      show "\<forall>a\<in>set (zs' @ [l]). s_prev (?h' a) = s_prev (h a)"
      proof
        fix a assume "a \<in> set (zs' @ [l])"
        then have "a \<noteq> s" "a \<noteq> ?n" using d l sl Cons by auto
        then show "s_prev (?h' a) = s_prev (h a)" by simp
      qed
    qed
    with cz' have "chain ?h' z zs' l" by simp
    with c1 show ?thesis using Cons by (simp only: chain_append simp_thms)
  qed
  have "linked ?h' l = set (ys @ zs)"
    using lk d unfolding linked_def by (auto split: if_splits)
  with c have "links ?h' l (ys @ zs)" using d l by (simp add: links_def)
  moreover have "\<forall>a. s_seqNum (?h' a) = s_seqNum (h a) \<and> s_db (?h' a) = s_db (h a) \<and>
      s_efos (?h' a) = s_efos (h a)"
    by simp
  ultimately show ?thesis using eq by blast
qed

subsection \<open>The earliest sequence number\<close>

text \<open>The sentinel is the largest sequence number.\<close>

lemma MaxUint64_top: "x \<le> MaxUint64"
  by (simp add: MaxUint64_def word_le_def) (use uint_lt2p [of x] in simp)

lemma pushBack_Inr_unlinked:
  "snapshotList_pushBack h l s = Inr h' \<Longrightarrow>
   s_list (h s) = None \<and> s_prev (h s) = None \<and> s_next (h s) = None"
  by (auto simp: snapshotList_pushBack_def split: if_splits)

lemma remove_Inr_linked:
  "snapshotList_remove h l s = Inr h' \<Longrightarrow> s \<in> linked h l"
  by (auto simp: snapshotList_remove_def linked_def split: if_splits)

lemma registry_pushBack:
  assumes R: "registry h l xs" and P: "snapshotList_pushBack h l s = Inr h'"
    and le: "\<forall>a \<in> linked h l. s_seqNum (h a) \<le> s_seqNum (h s)"
  shows "registry h' l (xs @ [s])"
proof -
  from R have L: "links h l xs" and so: "sorted (map (\<lambda>a. s_seqNum (h a)) xs)"
    by (simp_all add: registry_def)
  from pushBack_Inr_unlinked[OF P] have u: "s_list (h s) = None" "s_prev (h s) = None"
    "s_next (h s) = None" by simp_all
  from L have lk: "linked h l = set xs" and ch: "chain h l xs l" by (simp_all add: links_def)
  have "s \<notin> linked h l" using u(1) by (simp add: linked_def)
  with lk have sx: "s \<notin> set xs" by simp
  from chain_last[OF ch] have "s_prev (h l) \<noteq> None" by simp
  with u(2) have sl: "s \<noteq> l" by auto
  from links_pushBack[OF L sx sl u] P
  have L': "links h' l (xs @ [s])" and sq: "\<And>a. s_seqNum (h' a) = s_seqNum (h a)" by auto
  have "sorted (map (\<lambda>a. s_seqNum (h' a)) (xs @ [s]))"
    using so le lk by (simp add: sq sorted_append)
  with L' show ?thesis by (simp add: registry_def)
qed

lemma registry_remove:
  assumes R: "registry h l xs" and P: "snapshotList_remove h l s = Inr h'"
  shows "s \<in> set xs \<and> registry h' l (remove1 s xs)"
proof -
  from R have L: "links h l xs" and so: "sorted (map (\<lambda>a. s_seqNum (h a)) xs)"
    by (simp_all add: registry_def)
  from L have lk: "linked h l = set xs" and d: "distinct xs" by (simp_all add: links_def)
  from remove_Inr_linked[OF P] lk have sx: "s \<in> set xs" by simp
  then obtain ys zs where xs: "xs = ys @ s # zs" by (auto dest: split_list)
  from d xs have r1: "remove1 s xs = ys @ zs" by (simp add: remove1_append)
  from links_remove[of h l ys s zs] L xs P
  have L': "links h' l (ys @ zs)" and sq: "\<And>a. s_seqNum (h' a) = s_seqNum (h a)" by auto
  have "sorted (map (\<lambda>a. s_seqNum (h' a)) (ys @ zs))"
    using so xs by (auto simp: sq sorted_append)
  with L' r1 sx show ?thesis by (simp add: registry_def)
qed

lemma list_reachable_registry: "list_reachable l h \<Longrightarrow> \<exists>xs. registry h l xs"
proof (induction rule: list_reachable.induct)
  case (reach_init h)
  then have "registry (snapshotList_init h l) l []"
    by (simp add: registry_def links_init)
  then show ?case ..
next
  case (reach_pushBack h s h')
  then obtain xs where "registry h l xs" by blast
  from registry_pushBack[OF this reach_pushBack.hyps(2,3)] show ?case ..
next
  case (reach_remove h s h')
  then obtain xs where "registry h l xs" by blast
  from registry_remove[OF this reach_remove.hyps(2)] show ?case by blast
qed

lemma registry_earliest_Min:
  assumes R: "registry h l xs" and ne: "xs \<noteq> []"
  shows "snapshotList_earliest h l = Inr (Min ((\<lambda>a. s_seqNum (h a)) ` linked h l))"
proof -
  from R have L: "links h l xs" and so: "sorted (map (\<lambda>a. s_seqNum (h a)) xs)"
    by (simp_all add: registry_def)
  from L have lk: "linked h l = set xs" by (simp add: links_def)
  from ne obtain x ys where xs: "xs = x # ys" by (cases xs) auto
  have "Min ((\<lambda>a. s_seqNum (h a)) ` set xs) = s_seqNum (h x)"
    using so xs by (intro Min_eqI) auto
  with links_earliest[OF L] lk xs show ?thesis by simp
qed

text \<open>
  Claim C6, as amended. In every store a list can be in, \<^verbatim>\<open>earliest()\<close> returns the
  least sequence number among the Snapshots linked into the list when there is one, and
  the sentinel \<open>2^64 - 1\<close> when the list is empty; \<^verbatim>\<open>empty()\<close> holds exactly when no
  Snapshot is linked. A returned sentinel means that the list is empty provided no
  linked Snapshot carries the sequence number \<open>2^64 - 1\<close> itself.
\<close>

theorem earliest_is_minimum:
  assumes "list_reachable l h"
  shows "(snapshotList_empty h l \<longleftrightarrow> linked h l = {}) \<and>
         (linked h l = {} \<longrightarrow> snapshotList_earliest h l = Inr MaxUint64) \<and>
         (linked h l \<noteq> {} \<longrightarrow>
            snapshotList_earliest h l = Inr (Min ((\<lambda>a. s_seqNum (h a)) ` linked h l))) \<and>
         (snapshotList_earliest h l = Inr MaxUint64 \<and>
            (\<forall>a \<in> linked h l. s_seqNum (h a) \<noteq> MaxUint64) \<longrightarrow> linked h l = {})"
proof -
  from list_reachable_registry[OF assms] obtain xs where R: "registry h l xs" ..
  then have L: "links h l xs" by (simp add: registry_def)
  then have lk: "linked h l = set xs" by (simp add: links_def)
  have fin: "finite (linked h l)" using lk by simp
  have 1: "snapshotList_empty h l \<longleftrightarrow> linked h l = {}"
    using links_empty_iff[OF L] lk by simp
  have 2: "linked h l = {} \<longrightarrow> snapshotList_earliest h l = Inr MaxUint64"
    using links_earliest[OF L] lk by auto
  have 3: "linked h l \<noteq> {} \<longrightarrow>
      snapshotList_earliest h l = Inr (Min ((\<lambda>a. s_seqNum (h a)) ` linked h l))"
    using registry_earliest_Min[OF R] lk by auto
  have 4: "snapshotList_earliest h l = Inr MaxUint64 \<and>
      (\<forall>a \<in> linked h l. s_seqNum (h a) \<noteq> MaxUint64) \<longrightarrow> linked h l = {}"
  proof (intro impI, rule ccontr)
    assume a: "snapshotList_earliest h l = Inr MaxUint64 \<and>
      (\<forall>a \<in> linked h l. s_seqNum (h a) \<noteq> MaxUint64)" and ne: "linked h l \<noteq> {}"
    with 3 have "Min ((\<lambda>a. s_seqNum (h a)) ` linked h l) = MaxUint64" by simp
    moreover have "Min ((\<lambda>a. s_seqNum (h a)) ` linked h l) \<in> (\<lambda>a. s_seqNum (h a)) ` linked h l"
      using fin ne by (intro Min_in) auto
    ultimately show False using a by auto
  qed
  from 1 2 3 4 show ?thesis by blast
qed

lemma heap_max_eval:
  "snapshotList_pushBack
     (snapshotList_init
        ((\<lambda>_. nilSnapshot)(1 := nilSnapshot\<lparr>s_db := Some TheDB, s_seqNum := MaxUint64\<rparr>)) 0)
     0 1
   = Inr heap_max"
  by (simp add: heap_max_def snapshotList_pushBack_def snapshotList_init_def nilSnapshot_def Let_def)

lemma heap_max_reachable: "list_reachable 0 heap_max"
proof -
  let ?h0 = "(\<lambda>_. nilSnapshot)(1 := nilSnapshot\<lparr>s_db := Some TheDB, s_seqNum := MaxUint64\<rparr>)"
  have "linked ?h0 0 = {}" by (simp add: linked_def nilSnapshot_def)
  then have r0: "list_reachable 0 (snapshotList_init ?h0 0)" by (rule reach_init)
  have "linked (snapshotList_init ?h0 0) 0 = {}"
    by (simp add: linked_def snapshotList_init_def nilSnapshot_def)
  then have "\<forall>a \<in> linked (snapshotList_init ?h0 0) 0.
     s_seqNum (snapshotList_init ?h0 0 a) \<le> s_seqNum (snapshotList_init ?h0 0 1)" by simp
  with r0 heap_max_eval show ?thesis by (rule reach_pushBack)
qed

lemma heap_max_fields:
  "s_next (heap_max 0) = Some 1" "s_seqNum (heap_max 1) = MaxUint64"
  by (simp_all add: heap_max_def snapshotList_pushBack_def snapshotList_init_def nilSnapshot_def Let_def)

text \<open>
  Claim C6 as stated fails where a linked Snapshot has the sequence number \<open>2^64 - 1\<close>:
  \<^verbatim>\<open>earliest()\<close> returns the sentinel although the list is not empty.
\<close>

theorem earliest_sentinel_counterexample:
  "list_reachable 0 heap_max \<and>
   \<not> (snapshotList_earliest heap_max 0 = Inr MaxUint64 \<longleftrightarrow> snapshotList_empty heap_max 0)"
  using heap_max_reachable heap_max_fields
  by (simp add: snapshotList_earliest_def snapshotList_empty_def)

lemma heap_two_eq:
  "heap_two = (\<lambda>a.
      if a = 0 then nilSnapshot\<lparr>s_prev := Some 2, s_next := Some 1\<rparr>
      else if a = 1 then \<lparr>s_db = Some TheDB, s_seqNum = 5, s_efos = None, s_list = Some 0,
                           s_prev = Some 0, s_next = Some 2\<rparr>
      else if a = 2 then \<lparr>s_db = Some TheDB, s_seqNum = 9, s_efos = None, s_list = Some 0,
                           s_prev = Some 1, s_next = Some 0\<rparr>
      else nilSnapshot)"
  by (rule ext)
    (simp add: heap_two_def snapshotList_pushBack_def snapshotList_init_def
      nilSnapshot_def Let_def)

lemma heap_two_registry: "registry heap_two 0 [1, 2]"
  by (auto simp: registry_def links_def linked_def heap_two_eq nilSnapshot_def split: if_splits)

lemma heap_two_reachable: "list_reachable 0 heap_two"
proof -
  let ?g = "(\<lambda>_. nilSnapshot)(1 := nilSnapshot\<lparr>s_db := Some TheDB, s_seqNum := 5\<rparr>,
                              2 := nilSnapshot\<lparr>s_db := Some TheDB, s_seqNum := 9\<rparr>)"
  let ?h0 = "snapshotList_init ?g 0"
  have "linked ?g 0 = {}" by (simp add: linked_def nilSnapshot_def)
  then have r0: "list_reachable 0 ?h0" by (rule reach_init)
  obtain h1 where p1: "snapshotList_pushBack ?h0 0 1 = Inr h1"
    by (simp add: snapshotList_pushBack_def snapshotList_init_def nilSnapshot_def Let_def)
  have l0: "linked ?h0 0 = {}" by (simp add: linked_def snapshotList_init_def nilSnapshot_def)
  then have "\<forall>a \<in> linked ?h0 0. s_seqNum (?h0 a) \<le> s_seqNum (?h0 1)" by simp
  with r0 p1 have r1: "list_reachable 0 h1" by (rule reach_pushBack)
  have h1: "h1 = (case snapshotList_pushBack ?h0 0 1 of Inr h \<Rightarrow> h)" using p1 by simp
  have p2: "snapshotList_pushBack h1 0 2 = Inr heap_two"
    unfolding h1
    by (simp add: heap_two_def snapshotList_pushBack_def snapshotList_init_def
        nilSnapshot_def Let_def)
  have "linked h1 0 = {1}" unfolding h1
    by (auto simp: linked_def snapshotList_pushBack_def snapshotList_init_def
        nilSnapshot_def Let_def split: if_splits)
  moreover have "s_seqNum (h1 1) = 5" "s_seqNum (h1 2) = 9" unfolding h1
    by (simp_all add: snapshotList_pushBack_def snapshotList_init_def nilSnapshot_def Let_def)
  ultimately have "\<forall>a \<in> linked h1 0. s_seqNum (h1 a) \<le> s_seqNum (h1 2)" by simp
  with r1 p2 show ?thesis by (rule reach_pushBack)
qed

theorem earliest_is_minimum_witness:
  "list_reachable 0 heap_two \<and> linked heap_two 0 = {1, 2} \<and>
   snapshotList_earliest heap_two 0 = Inr 5 \<and>
   snapshotList_earliest heap_two 0 = Inr (Min ((\<lambda>a. s_seqNum (heap_two a)) ` linked heap_two 0))"
proof -
  have l: "linked heap_two 0 = {1, 2}" by (auto simp: linked_def heap_two_eq nilSnapshot_def split: if_splits)
  then have "linked heap_two 0 \<noteq> {}" by simp
  with earliest_is_minimum[OF heap_two_reachable]
  have "snapshotList_earliest heap_two 0 = Inr (Min ((\<lambda>a. s_seqNum (heap_two a)) ` linked heap_two 0))"
    by blast
  moreover have "snapshotList_earliest heap_two 0 = Inr 5"
    by (simp add: snapshotList_earliest_def snapshotList_empty_def heap_two_eq nilSnapshot_def)
  ultimately show ?thesis using heap_two_reachable l by simp
qed

lemma links_field_cong:
  assumes "\<forall>a. s_list (h' a) = s_list (h a) \<and> s_prev (h' a) = s_prev (h a) \<and>
               s_next (h' a) = s_next (h a)"
  shows "links h' l xs = links h l xs"
proof -
  have "chain h' l xs l = chain h l xs l" using assms by (intro chain_cong) simp_all
  moreover have "linked h' l = linked h l" using assms by (simp add: linked_def)
  ultimately show ?thesis by (simp add: links_def)
qed

lemma registry_field_cong:
  assumes "\<forall>a. s_list (h' a) = s_list (h a) \<and> s_prev (h' a) = s_prev (h a) \<and>
               s_next (h' a) = s_next (h a) \<and> s_seqNum (h' a) = s_seqNum (h a)"
  shows "registry h' l xs = registry h l xs"
proof -
  have "links h' l xs = links h l xs" using assms by (intro links_field_cong) simp
  moreover have "(\<lambda>a. s_seqNum (h' a)) = (\<lambda>a. s_seqNum (h a))" using assms by simp
  ultimately show ?thesis by (simp add: registry_def)
qed

lemma closeLocked_result:
  assumes "s_db (snaps st s) = Some d"
    and "snapshotList_remove (snaps st) (d_snapshots (db st)) s = Inr h1"
    and "snapshotList_earliest h1 (d_snapshots (db st)) = Inr e'"
  shows "Snapshot_closeLocked st s =
    Inr (None, st\<lparr>snaps := h1(s := (h1 s)\<lparr>s_db := None\<rparr>),
                   trace := trace st @ (if s_seqNum (h1 s) < e'
                      then [MaybeScheduleCompactionPicker_pickElisionOnly] else [])\<rparr>)"
  using assms by (simp add: Snapshot_closeLocked_def emit_def Let_def)

subsection \<open>Closing a Snapshot\<close>

lemma closeLocked_registry:
  assumes R: "registry (snaps st) (d_snapshots (db st)) xs" and sx: "s \<in> set xs"
    and dbs: "s_db (snaps st s) \<noteq> None"
  shows "\<exists>st'. Snapshot_closeLocked st s = Inr (None, st') \<and>
      registry (snaps st') (d_snapshots (db st')) (remove1 s xs) \<and>
      s_db (snaps st' s) = None \<and>
      (\<forall>a. a \<noteq> s \<longrightarrow> s_db (snaps st' a) = s_db (snaps st a)) \<and>
      (\<forall>a. s_seqNum (snaps st' a) = s_seqNum (snaps st a)) \<and>
      efoss st' = efoss st \<and> efos_alloc st' = efos_alloc st \<and>
      snap_alloc st' = snap_alloc st \<and> db st' = db st \<and>
      trace st' = trace st @
        (if s_seqNum (snaps st s) <
              (case remove1 s xs of [] \<Rightarrow> MaxUint64 | z # _ \<Rightarrow> s_seqNum (snaps st z))
         then [MaybeScheduleCompactionPicker_pickElisionOnly] else [])"
proof -
  let ?l = "d_snapshots (db st)"
  let ?h = "snaps st"
  from R have L: "links ?h ?l xs" by (simp add: registry_def)
  from L have d: "distinct xs" by (simp add: links_def)
  from sx obtain ys zs where xs: "xs = ys @ s # zs" by (auto dest: split_list)
  from links_remove[of ?h ?l ys s zs] L xs obtain h1 where
    rm: "snapshotList_remove ?h ?l s = Inr h1"
    and f1: "\<And>a. s_seqNum (h1 a) = s_seqNum (?h a)" "\<And>a. s_db (h1 a) = s_db (?h a)"
    by auto
  from registry_remove[OF R rm] have R1: "registry h1 ?l (remove1 s xs)" by simp
  then have L1: "links h1 ?l (remove1 s xs)" by (simp add: registry_def)
  have e1: "snapshotList_earliest h1 ?l =
      Inr (case remove1 s xs of [] \<Rightarrow> MaxUint64 | z # _ \<Rightarrow> s_seqNum (?h z))"
    using links_earliest[OF L1] by (simp add: f1 split: list.splits)
  from dbs obtain dd where dd: "s_db (snaps st s) = Some dd" by auto
  let ?h2 = "h1(s := (h1 s)\<lparr>s_db := None\<rparr>)"
  have R2: "registry ?h2 ?l (remove1 s xs)"
    using R1 by (subst registry_field_cong[of ?h2 h1]) simp_all
  note res = closeLocked_result[OF dd rm e1]
  show ?thesis
    by (rule exI, rule conjI, rule res) (simp add: R2 f1)
qed

text \<open>
  Claim C7, as amended. Closing a Snapshot of the registry with \<^verbatim>\<open>closeLocked\<close> returns
  nil, unlinks the Snapshot and leaves the registry well-formed with the remaining entries
  in their order; \<open>e\<close>, the earliest sequence number before, is that of the head entry,
  and \<open>e'\<close>, the earliest sequence number afterwards, is that of the first remaining
  entry, or the sentinel when none remains. When the Snapshot was the head entry and
  \<open>e'\<close> is strictly larger than \<open>e\<close>, the elision-only scheduling call is made exactly
  once; when it was the head entry and \<open>e'\<close> is not larger (the next entry has the same
  sequence number, or the registry is left empty and the closed Snapshot carried the
  sentinel \<open>2^64 - 1\<close> itself), and when it was not the head entry (\<open>e'\<close> is then \<open>e\<close>),
  no such call is made.
\<close>

theorem closeLocked_elision_trigger:
  assumes R: "registry (snaps st) (d_snapshots (db st)) xs" and sx: "s \<in> set xs"
    and dbs: "s_db (snaps st s) \<noteq> None"
  shows "\<exists>e e' st'.
      snapshotList_earliest (snaps st) (d_snapshots (db st)) = Inr e \<and>
      e = s_seqNum (snaps st (hd xs)) \<and>
      Snapshot_closeLocked st s = Inr (None, st') \<and>
      db st' = db st \<and>
      registry (snaps st') (d_snapshots (db st')) (remove1 s xs) \<and>
      linked (snaps st') (d_snapshots (db st')) =
        linked (snaps st) (d_snapshots (db st)) - {s} \<and>
      s_db (snaps st' s) = None \<and>
      (\<forall>a. s_seqNum (snaps st' a) = s_seqNum (snaps st a)) \<and>
      snapshotList_earliest (snaps st') (d_snapshots (db st')) = Inr e' \<and>
      e' = (case remove1 s xs of [] \<Rightarrow> MaxUint64 | z # _ \<Rightarrow> s_seqNum (snaps st z)) \<and>
      (s = hd xs \<and> e < e' \<longrightarrow>
         trace st' = trace st @ [MaybeScheduleCompactionPicker_pickElisionOnly]) \<and>
      (s = hd xs \<and> \<not> e < e' \<longrightarrow> trace st' = trace st) \<and>
      (s \<noteq> hd xs \<longrightarrow> e' = e \<and> trace st' = trace st)"
proof -
  let ?l = "d_snapshots (db st)"
  let ?q = "\<lambda>a. s_seqNum (snaps st a)"
  let ?e = "case xs of [] \<Rightarrow> MaxUint64 | x # _ \<Rightarrow> ?q x"
  let ?e' = "case remove1 s xs of [] \<Rightarrow> MaxUint64 | z # _ \<Rightarrow> ?q z"
  from R have L: "links (snaps st) ?l xs" and so: "sorted (map ?q xs)"
    by (simp_all add: registry_def)
  from L have lk: "linked (snaps st) ?l = set xs" and d: "distinct xs"
    by (simp_all add: links_def)
  have e: "snapshotList_earliest (snaps st) ?l = Inr ?e" by (rule links_earliest[OF L])
  from closeLocked_registry[OF R sx dbs] obtain st' where
    cl: "Snapshot_closeLocked st s = Inr (None, st')"
    and R': "registry (snaps st') (d_snapshots (db st')) (remove1 s xs)"
    and sd: "s_db (snaps st' s) = None"
    and sq: "\<forall>a. s_seqNum (snaps st' a) = ?q a"
    and dd: "db st' = db st"
    and tr: "trace st' = trace st @
        (if ?q s < ?e' then [MaybeScheduleCompactionPicker_pickElisionOnly] else [])"
    by (elim exE conjE)
  from R' have L': "links (snaps st') (d_snapshots (db st')) (remove1 s xs)"
    by (simp add: registry_def)
  then have "linked (snaps st') (d_snapshots (db st')) = set (remove1 s xs)"
    by (simp add: links_def)
  with lk d have lk': "linked (snaps st') (d_snapshots (db st')) = linked (snaps st) ?l - {s}"
    by simp
  have e': "snapshotList_earliest (snaps st') (d_snapshots (db st')) = Inr ?e'"
    using links_earliest[OF L'] sq by (simp split: list.splits)
  from sx obtain x rest where xs: "xs = x # rest" by (cases xs) auto
  have eh: "?e = ?q (hd xs)" using xs by simp
  have hd: "s = hd xs \<longrightarrow> ?e = ?q s" using xs by simp
  have nhd: "s \<noteq> hd xs \<longrightarrow> ?e' = ?e \<and> \<not> ?q s < ?e'"
  proof
    assume "s \<noteq> hd xs"
    with xs sx have ne: "x \<noteq> s" and sr: "s \<in> set rest" by auto
    from so xs sr have "?q x \<le> ?q s" by auto
    with ne xs show "?e' = ?e \<and> \<not> ?q s < ?e'" by auto
  qed
  have a: "s = hd xs \<and> ?e < ?e' \<longrightarrow>
      trace st' = trace st @ [MaybeScheduleCompactionPicker_pickElisionOnly]"
    using hd tr by simp
  have b: "s = hd xs \<and> \<not> ?e < ?e' \<longrightarrow> trace st' = trace st" using hd tr by simp
  have c: "s \<noteq> hd xs \<longrightarrow> ?e' = ?e \<and> trace st' = trace st"
  proof
    assume "s \<noteq> hd xs"
    with nhd have n1: "?e' = ?e" and n2: "\<not> ?q s < ?e'" by blast+
    from tr n2 have "trace st' = trace st" by simp
    with n1 show "?e' = ?e \<and> trace st' = trace st" by blast
  qed
  show ?thesis
    by (rule exI[where x = "?e"], rule exI[where x = "?e'"], rule exI[where x = st'])
      (intro conjI e eh cl dd R' lk' sd sq e' refl a b c)
qed

lemma st_two_closeLocked_hyps:
  "registry (snaps st_two) (d_snapshots (db st_two)) [1, 2]" "s_db (snaps st_two 1) \<noteq> None"
  using heap_two_registry
  by (simp_all add: st_two_def st_open_def ex_db_def heap_two_eq)

theorem closeLocked_elision_trigger_witness:
  "registry (snaps st_two) (d_snapshots (db st_two)) [1, 2] \<and>
   s_db (snaps st_two 1) \<noteq> None \<and>
   snapshotList_earliest (snaps st_two) (d_snapshots (db st_two)) = Inr 5 \<and>
   (\<exists>st'. Snapshot_closeLocked st_two 1 = Inr (None, st') \<and>
      registry (snaps st') (d_snapshots (db st')) [2] \<and>
      linked (snaps st') (d_snapshots (db st')) = {2} \<and>
      snapshotList_earliest (snaps st') (d_snapshots (db st')) = Inr 9 \<and>
      trace st' = trace st_two @ [MaybeScheduleCompactionPicker_pickElisionOnly])"
proof -
  have q: "s_seqNum (snaps st_two 1) = 5" "s_seqNum (snaps st_two 2) = 9"
    by (simp_all add: st_two_def heap_two_eq)
  have l: "linked (snaps st_two) (d_snapshots (db st_two)) = {1, 2}"
    by (auto simp: linked_def st_two_def st_open_def ex_db_def heap_two_eq nilSnapshot_def
        split: if_splits)
  have m: "(1::nat) \<in> set [1, 2]" by simp
  from closeLocked_elision_trigger[OF st_two_closeLocked_hyps(1) m st_two_closeLocked_hyps(2)]
  obtain e0 e' st' where
    w1: "snapshotList_earliest (snaps st_two) (d_snapshots (db st_two)) = Inr e0"
    and w1h: "e0 = s_seqNum (snaps st_two (hd [1, 2]))"
    and w2: "Snapshot_closeLocked st_two 1 = Inr (None, st')"
    and w3: "registry (snaps st') (d_snapshots (db st')) (remove1 1 [1, 2])"
    and w4: "linked (snaps st') (d_snapshots (db st')) =
        linked (snaps st_two) (d_snapshots (db st_two)) - {1}"
    and w5: "snapshotList_earliest (snaps st') (d_snapshots (db st')) = Inr e'"
    and w6: "e' = (case remove1 1 [1, 2] of [] \<Rightarrow> MaxUint64
                  | z # _ \<Rightarrow> s_seqNum (snaps st_two z))"
    and w7: "(1::nat) = hd [1, 2] \<and> e0 < e' \<longrightarrow>
         trace st' = trace st_two @ [MaybeScheduleCompactionPicker_pickElisionOnly]"
    by (elim exE conjE)
  from w1h q have e0: "e0 = 5" by simp
  from w6 q have e9: "e' = 9" by simp
  from w7 e0 e9 have t: "trace st' = trace st_two @ [MaybeScheduleCompactionPicker_pickElisionOnly]"
    by simp
  from w3 have r: "registry (snaps st') (d_snapshots (db st')) [2]" by simp
  from w4 l have k: "linked (snaps st') (d_snapshots (db st')) = {2}" by auto
  have "\<exists>st'. Snapshot_closeLocked st_two 1 = Inr (None, st') \<and>
      registry (snaps st') (d_snapshots (db st')) [2] \<and>
      linked (snaps st') (d_snapshots (db st')) = {2} \<and>
      snapshotList_earliest (snaps st') (d_snapshots (db st')) = Inr 9 \<and>
      trace st' = trace st_two @ [MaybeScheduleCompactionPicker_pickElisionOnly]"
    using w2 r k w5 e9 t by (intro exI[where x = st']) simp
  moreover from w1 e0 have "snapshotList_earliest (snaps st_two) (d_snapshots (db st_two)) = Inr 5"
    by simp
  ultimately show ?thesis using st_two_closeLocked_hyps by (intro conjI)
qed

lemma heap_max_eq:
  "heap_max = (\<lambda>a.
      if a = 0 then nilSnapshot\<lparr>s_prev := Some 1, s_next := Some 1\<rparr>
      else if a = 1 then \<lparr>s_db = Some TheDB, s_seqNum = MaxUint64, s_efos = None,
                           s_list = Some 0, s_prev = Some 0, s_next = Some 0\<rparr>
      else nilSnapshot)"
  by (rule ext)
    (simp add: heap_max_def snapshotList_pushBack_def snapshotList_init_def
      nilSnapshot_def Let_def)

text \<open>
  Claim C7 as stated fails where the only Snapshot of the registry has the sequence
  number \<open>2^64 - 1\<close>: it is the earliest entry, the registry is empty after its removal
  and \<^verbatim>\<open>earliest()\<close> is then the sentinel, yet no scheduling call is made, because the
  sentinel is not larger than the Snapshot's own sequence number.
\<close>

theorem closeLocked_sentinel_counterexample:
  "registry (snaps st_max) (d_snapshots (db st_max)) [1] \<and>
   s_db (snaps st_max 1) \<noteq> None \<and>
   Snapshot_closeLocked st_max 1 = Inr (None, st_of (Snapshot_closeLocked st_max 1)) \<and>
   snapshotList_empty (snaps (st_of (Snapshot_closeLocked st_max 1))) 0 \<and>
   snapshotList_earliest (snaps (st_of (Snapshot_closeLocked st_max 1))) 0 = Inr MaxUint64 \<and>
   trace (st_of (Snapshot_closeLocked st_max 1)) = trace st_max"
proof -
  note ev = st_of_def Snapshot_closeLocked_def snapshotList_remove_def
    snapshotList_earliest_def snapshotList_empty_def st_max_def st_open_def ex_db_def
    heap_max_eq nilSnapshot_def Let_def emit_def
  have r: "registry (snaps st_max) (d_snapshots (db st_max)) [1]"
    by (auto simp: registry_def links_def linked_def st_max_def st_open_def ex_db_def
        heap_max_eq nilSnapshot_def split: if_splits)
  have d: "s_db (snaps st_max 1) \<noteq> None" by (simp add: st_max_def heap_max_eq)
  have c: "Snapshot_closeLocked st_max 1 = Inr (None, st_of (Snapshot_closeLocked st_max 1))"
    by (simp add: ev)
  have e: "snapshotList_empty (snaps (st_of (Snapshot_closeLocked st_max 1))) 0"
    by (simp add: ev)
  have m: "snapshotList_earliest (snaps (st_of (Snapshot_closeLocked st_max 1))) 0 =
      Inr MaxUint64"
    by (simp add: ev)
  have t: "trace (st_of (Snapshot_closeLocked st_max 1)) = trace st_max"
    by (simp add: ev)
  from r d c e m t show ?thesis by (intro conjI)
qed

subsection \<open>The example states, evaluated\<close>

lemma st_file_only_eq:
  "DB_makeEventuallyFileOnlySnapshot ovl_none st_open [(''a'', ''c'')] [(''a'', ''c'')] =
     Inr (0, st_file_only)"
  by (simp add: st_file_only_def st_of_def DB_makeEventuallyFileOnlySnapshot_def ovl_none_def
      st_open_def ex_db_def Let_def)

lemma st_file_only_efos:
  "efoss st_file_only 0 = \<lparr>es_snap = None, es_readState = None, es_vers = Some 7,
     es_protectedRanges = [(''a'', ''c'')], es_excised = False, es_db = Some TheDB,
     es_seqNum = 10, es_closed = False\<rparr>"
  by (simp add: st_file_only_def st_of_def DB_makeEventuallyFileOnlySnapshot_def ovl_none_def
      st_open_def ex_db_def Let_def emit_def)

lemma st_pinned_eq:
  "DB_makeEventuallyFileOnlySnapshot ovl_second st_open [(''a'', ''c'')] [(''a'', ''c'')] =
     Inr (0, st_pinned)"
  by (simp add: st_pinned_def st_of_def DB_makeEventuallyFileOnlySnapshot_def ovl_second_def
      st_open_def ex_db_def Let_def snapshotList_pushBack_def snapshotList_init_def
      nilSnapshot_def emit_def)

lemma st_pinned_efos:
  "efoss st_pinned 0 = \<lparr>es_snap = Some 1, es_readState = Some 3, es_vers = None,
     es_protectedRanges = [(''a'', ''c'')], es_excised = False, es_db = Some TheDB,
     es_seqNum = 10, es_closed = False\<rparr>"
  by (simp add: st_pinned_def st_of_def DB_makeEventuallyFileOnlySnapshot_def ovl_second_def
      st_open_def ex_db_def Let_def snapshotList_pushBack_def snapshotList_init_def
      nilSnapshot_def emit_def)

lemma st_pinned_snaps:
  "snaps st_pinned = (\<lambda>a.
      if a = 0 then nilSnapshot\<lparr>s_prev := Some 1, s_next := Some 1\<rparr>
      else if a = 1 then \<lparr>s_db = Some TheDB, s_seqNum = 10, s_efos = Some 0, s_list = Some 0,
                           s_prev = Some 0, s_next = Some 0\<rparr>
      else nilSnapshot)"
  by (rule ext)
    (simp add: st_pinned_def st_of_def DB_makeEventuallyFileOnlySnapshot_def ovl_second_def
      st_open_def ex_db_def Let_def snapshotList_pushBack_def snapshotList_init_def
      nilSnapshot_def emit_def)

lemma st_pinned_rest:
  "db st_pinned = ex_db" "trace st_pinned = [ReadState_ref 3]" "snap_alloc st_pinned = 2"
  "efos_alloc st_pinned = 1"
  by (simp_all add: st_pinned_def st_of_def DB_makeEventuallyFileOnlySnapshot_def ovl_second_def
      st_open_def ex_db_def Let_def snapshotList_pushBack_def snapshotList_init_def
      nilSnapshot_def emit_def)

lemma st_file_only_closed_eq: "EFOS_Close st_file_only 0 = Inr (None, st_file_only_closed)"
  by (simp add: st_file_only_closed_def st_of_def EFOS_Close_def st_file_only_efos Let_def)

lemma st_file_only_closed_efos:
  "efoss st_file_only_closed 0 = (efoss st_file_only 0)\<lparr>es_closed := True\<rparr>"
  by (simp add: st_file_only_closed_def st_of_def EFOS_Close_def st_file_only_efos Let_def emit_def)

lemma st_pinned_closed_eq: "EFOS_Close st_pinned 0 = Inr (None, st_pinned_closed)"
  by (simp add: st_pinned_closed_def st_of_def EFOS_Close_def st_pinned_efos Let_def
      Snapshot_closeLocked_def snapshotList_remove_def snapshotList_earliest_def
      snapshotList_empty_def st_pinned_snaps st_pinned_rest ex_db_def nilSnapshot_def emit_def)

lemma st_pinned_closed_efos:
  "efoss st_pinned_closed 0 = (efoss st_pinned 0)\<lparr>es_closed := True\<rparr>"
  by (simp add: st_pinned_closed_def st_of_def EFOS_Close_def st_pinned_efos Let_def
      Snapshot_closeLocked_def snapshotList_remove_def snapshotList_earliest_def
      snapshotList_empty_def st_pinned_snaps st_pinned_rest ex_db_def nilSnapshot_def emit_def)

lemma st_pinned_closed_trace:
  "trace st_pinned_closed = [ReadState_ref 3, MaybeScheduleCompactionPicker_pickElisionOnly,
     ReadState_unrefLocked 3, MaybeScheduleObsoleteTableDeletionLocked]"
  by (simp add: st_pinned_closed_def st_of_def EFOS_Close_def st_pinned_efos Let_def
      Snapshot_closeLocked_def snapshotList_remove_def snapshotList_earliest_def
      snapshotList_empty_def st_pinned_snaps st_pinned_rest ex_db_def nilSnapshot_def emit_def
      MaxUint64_def)

subsection \<open>Point lookups\<close>

text \<open>
  Claim C10. \<^verbatim>\<open>EventuallyFileOnlySnapshot.Get\<close> panics with \<^verbatim>\<open>"unimplemented"\<close> for every
  key and in every state of the EFOS, whereas \<^verbatim>\<open>Snapshot.Get\<close> on an open Snapshot hands
  the lookup to the engine and returns what it answers.
\<close>

theorem EFOS_Get_unimplemented:
  "EFOS_Get st es key = Inl (PanicMsg ''unimplemented'') \<and>
   (s_db (snaps st s) \<noteq> None \<longrightarrow>
      Snapshot_Get getInternal st s key = Inr (getInternal key s))"
  by (simp add: EFOS_Get_def Snapshot_Get_def)

theorem EFOS_Get_unimplemented_witness:
  "s_db (snaps st_two 1) \<noteq> None \<and>
   EFOS_Get st_two 0 ''k'' = Inl (PanicMsg ''unimplemented'') \<and>
   Snapshot_Get (\<lambda>key s. (key, s)) st_two 1 ''k'' = Inr (''k'', 1)"
  using EFOS_Get_unimplemented[where st = st_two and s = 1 and key = "''k''"
      and getInternal = "\<lambda>key s. (key, s)" and es = 0]
    st_two_closeLocked_hyps(2)
  by simp

subsection \<open>Transition of a closed EFOS\<close>

text \<open>
  Claim C4. When the closed signal of the EFOS has fired,
  \<^verbatim>\<open>transitionToFileOnlySnapshot\<close> releases the version it was handed exactly once (the
  only call it makes), returns \<^verbatim>\<open>ErrClosed\<close>, and changes nothing else: the EFOS keeps
  its \<^verbatim>\<open>snap\<close>, \<^verbatim>\<open>readState\<close> and \<^verbatim>\<open>vers\<close>, and the Snapshot store is untouched.
\<close>

theorem transition_on_closed:
  assumes "es_closed (efoss st es)"
  shows "\<exists>st'. EFOS_transitionToFileOnlySnapshot st es vers = Inr (Some ErrClosed, st') \<and>
      trace st' = trace st @ [Version_UnrefLocked vers] \<and>
      efoss st' = efoss st \<and> snaps st' = snaps st \<and> db st' = db st \<and>
      snap_alloc st' = snap_alloc st \<and> efos_alloc st' = efos_alloc st"
  using assms by (simp add: EFOS_transitionToFileOnlySnapshot_def emit_def)

theorem transition_on_closed_witness:
  "es_closed (efoss st_pinned_closed 0) \<and>
   es_snap (efoss st_pinned_closed 0) = Some 1 \<and>
   (\<exists>st'. EFOS_transitionToFileOnlySnapshot st_pinned_closed 0 8 = Inr (Some ErrClosed, st') \<and>
      trace st' = trace st_pinned_closed @ [Version_UnrefLocked 8] \<and>
      efoss st' = efoss st_pinned_closed)"
proof -
  have c: "es_closed (efoss st_pinned_closed 0)"
    by (simp add: st_pinned_closed_efos st_pinned_efos)
  have s: "es_snap (efoss st_pinned_closed 0) = Some 1"
    by (simp add: st_pinned_closed_efos st_pinned_efos)
  from transition_on_closed[OF c, of 8] c s show ?thesis by blast
qed

subsection \<open>Reads of an excised EFOS\<close>

text \<open>
  Claim C1, as amended. On an open EFOS whose \<^verbatim>\<open>excised\<close> flag is set, \<^verbatim>\<open>NewIter\<close> and
  \<^verbatim>\<open>NewIterWithContext\<close> build their iterator on the version in the file-only phase and
  return \<^verbatim>\<open>ErrSnapshotExcised\<close> in the memtable-pinned phase, whereas \<^verbatim>\<open>ScanInternal\<close>
  returns \<^verbatim>\<open>ErrSnapshotExcised\<close> in both phases and builds no iterator: it tests the flag
  before it looks at the phase.
\<close>

theorem excised_reads:
  assumes "es_excised (efoss st es)" and "\<not> es_closed (efoss st es)"
    and "es_db (efoss st es) \<noteq> None"
  shows "(\<forall>v. es_vers (efoss st es) = Some v \<longrightarrow>
            EFOS_NewIterWithContext st es o' =
              Inr (Some (Iter \<lparr>io_seqNum = es_seqNum (efoss st es), io_vers = Some v,
                               io_readState = None\<rparr> o'), None) \<and>
            EFOS_NewIter st es o' = EFOS_NewIterWithContext st es o') \<and>
         (es_vers (efoss st es) = None \<longrightarrow>
            EFOS_NewIterWithContext st es o' = Inr (None, Some ErrSnapshotExcised) \<and>
            EFOS_NewIter st es o' = Inr (None, Some ErrSnapshotExcised)) \<and>
         EFOS_ScanInternal f st es lower upper = Inr (Some ErrSnapshotExcised, st)"
  using assms
  by (auto simp: EFOS_NewIterWithContext_def EFOS_NewIter_def EFOS_ScanInternal_def Let_def)

theorem excised_reads_witness:
  "file_only (efoss (excise 0 st_file_only) 0) \<and>
   es_excised (efoss (excise 0 st_file_only) 0) \<and>
   \<not> es_closed (efoss (excise 0 st_file_only) 0) \<and>
   EFOS_NewIterWithContext (excise 0 st_file_only) 0 None =
     Inr (Some (Iter \<lparr>io_seqNum = 10, io_vers = Some 7, io_readState = None\<rparr> None), None) \<and>
   EFOS_ScanInternal (\<lambda>it. None) (excise 0 st_file_only) 0 ''a'' ''c'' =
     Inr (Some ErrSnapshotExcised, excise 0 st_file_only)"
proof -
  have e: "efoss (excise 0 st_file_only) 0 = (efoss st_file_only 0)\<lparr>es_excised := True\<rparr>"
    by (simp add: excise_def)
  have h: "es_excised (efoss (excise 0 st_file_only) 0)"
    "\<not> es_closed (efoss (excise 0 st_file_only) 0)"
    "es_db (efoss (excise 0 st_file_only) 0) \<noteq> None"
    by (simp_all add: e st_file_only_efos)
  have v: "es_vers (efoss (excise 0 st_file_only) 0) = Some 7"
    "es_seqNum (efoss (excise 0 st_file_only) 0) = 10"
    and fo: "file_only (efoss (excise 0 st_file_only) 0)"
    by (simp_all add: e st_file_only_efos file_only_def)
  from excised_reads[OF h, of None "\<lambda>it. None" "''a''" "''c''"] v fo h show ?thesis by simp
qed

text \<open>
  Claim C1 as stated fails for \<^verbatim>\<open>ScanInternal\<close>: on an open EFOS in the file-only phase
  whose \<^verbatim>\<open>excised\<close> flag is set it returns \<^verbatim>\<open>ErrSnapshotExcised\<close> and builds no iterator
  (the trace is unchanged).
\<close>

theorem scan_excised_file_only_counterexample:
  "file_only (efoss (excise 0 st_file_only) 0) \<and>
   es_excised (efoss (excise 0 st_file_only) 0) \<and>
   \<not> es_closed (efoss (excise 0 st_file_only) 0) \<and>
   EFOS_ScanInternal (\<lambda>it. None) (excise 0 st_file_only) 0 ''a'' ''c'' =
     Inr (Some ErrSnapshotExcised, excise 0 st_file_only)"
  by (simp add: excise_def st_file_only_efos file_only_def EFOS_ScanInternal_def)

subsection \<open>Releasing the read state after an excision\<close>

lemma releaseReadState_not_excised:
  "\<not> es_excised (efoss st es) \<Longrightarrow>
   EFOS_releaseReadState st es = Inl (PanicMsg
     ''pebble: releasing read state of eventually-file-only-snapshot but was not excised'')"
  by (simp add: EFOS_releaseReadState_def)

lemma releaseReadState_nil:
  "es_excised (efoss st es) \<Longrightarrow> es_readState (efoss st es) = None \<Longrightarrow>
   EFOS_releaseReadState st es = Inr st"
  by (simp add: EFOS_releaseReadState_def)

text \<open>
  Claim C9, what the code does. With \<^verbatim>\<open>excised\<close> set and a read state held,
  \<^verbatim>\<open>releaseReadState\<close> releases the read state and asks for obsolete-table deletion, but
  it leaves the \<^verbatim>\<open>readState\<close> field as it was; a second call therefore finds the same
  reference and releases it a second time.
\<close>

theorem releaseReadState_twice:
  assumes "es_excised (efoss st es)" and "es_readState (efoss st es) = Some r"
    and "es_db (efoss st es) \<noteq> None"
  shows "\<exists>st1 st2.
      EFOS_releaseReadState st es = Inr st1 \<and>
      trace st1 = trace st @ [ReadState_unrefLocked r, MaybeScheduleObsoleteTableDeletionLocked] \<and>
      efoss st1 = efoss st \<and>
      EFOS_releaseReadState st1 es = Inr st2 \<and>
      trace st2 = trace st1 @ [ReadState_unrefLocked r, MaybeScheduleObsoleteTableDeletionLocked]"
  using assms by (auto simp: EFOS_releaseReadState_def emit_def)

theorem releaseReadState_twice_witness:
  "memtable_pinned (efoss (excise 0 st_pinned) 0) \<and>
   es_excised (efoss (excise 0 st_pinned) 0) \<and>
   (\<exists>st1 st2. EFOS_releaseReadState (excise 0 st_pinned) 0 = Inr st1 \<and>
      EFOS_releaseReadState st1 0 = Inr st2 \<and>
      trace st2 = [ReadState_ref 3,
                   ReadState_unrefLocked 3, MaybeScheduleObsoleteTableDeletionLocked,
                   ReadState_unrefLocked 3, MaybeScheduleObsoleteTableDeletionLocked])"
proof -
  have e: "efoss (excise 0 st_pinned) 0 = (efoss st_pinned 0)\<lparr>es_excised := True\<rparr>"
    and t: "trace (excise 0 st_pinned) = [ReadState_ref 3]"
    by (simp_all add: excise_def st_pinned_rest)
  have h: "es_excised (efoss (excise 0 st_pinned) 0)"
    "es_readState (efoss (excise 0 st_pinned) 0) = Some 3"
    "es_db (efoss (excise 0 st_pinned) 0) \<noteq> None"
    and mp: "memtable_pinned (efoss (excise 0 st_pinned) 0)"
    by (simp_all add: e st_pinned_efos memtable_pinned_def)
  from releaseReadState_twice[OF h] obtain st1 st2 where
    "EFOS_releaseReadState (excise 0 st_pinned) 0 = Inr st1"
    "trace st1 = trace (excise 0 st_pinned) @
       [ReadState_unrefLocked 3, MaybeScheduleObsoleteTableDeletionLocked]"
    "EFOS_releaseReadState st1 0 = Inr st2"
    "trace st2 = trace st1 @ [ReadState_unrefLocked 3, MaybeScheduleObsoleteTableDeletionLocked]"
    by blast
  with t mp h(1) show ?thesis by auto
qed

subsection \<open>Operations on closed objects\<close>

lemma closeLocked_frame:
  "Snapshot_closeLocked st s = Inr (r, st') \<Longrightarrow>
   r = None \<and> s_db (snaps st' s) = None \<and> efoss st' = efoss st \<and>
   efos_alloc st' = efos_alloc st \<and> snap_alloc st' = snap_alloc st \<and> db st' = db st"
  by (auto simp: Snapshot_closeLocked_def emit_def Let_def split: option.splits sum.splits if_splits)

lemma EFOS_Close_closed:
  assumes "EFOS_Close st es = Inr (r, st')"
  shows "es_closed (efoss st' es)"
proof -
  let ?st1 = "st\<lparr>efoss := (efoss st)(es := (efoss st es)\<lparr>es_closed := True\<rparr>)\<rparr>"
  from assms have nc: "\<not> es_closed (efoss st es)"
    by (auto simp: EFOS_Close_def split: if_splits)
  obtain r2 st2 where
    c: "(case es_snap (efoss ?st1 es) of None \<Rightarrow> Inr (None, ?st1)
         | Some s \<Rightarrow> Snapshot_closeLocked ?st1 s) = Inr (r2, st2)"
    and e: "efoss st' = efoss st2"
    using assms nc
    by (auto simp: EFOS_Close_def Let_def emit_def split: option.splits sum.splits if_splits)
  have "efoss st2 = efoss ?st1"
    using c by (auto split: option.splits dest: closeLocked_frame)
  with e show ?thesis by simp
qed

text \<open>
  Claim C3, as amended. After \<^verbatim>\<open>Close\<close> (or \<^verbatim>\<open>closeLocked\<close>) the Snapshot's engine handle
  is nil, and \<^verbatim>\<open>Snapshot.Get\<close>, \<^verbatim>\<open>Snapshot.NewIter\<close>, \<^verbatim>\<open>Snapshot.NewIterWithContext\<close>,
  \<^verbatim>\<open>Snapshot.ScanInternal\<close> and \<^verbatim>\<open>Snapshot.Close\<close> then panic with \<^verbatim>\<open>ErrClosed\<close>. After
  \<^verbatim>\<open>EventuallyFileOnlySnapshot.Close\<close> the closed signal has fired, and
  \<^verbatim>\<open>NewIter\<close> and \<^verbatim>\<open>NewIterWithContext\<close> of the EFOS then panic with \<^verbatim>\<open>ErrClosed\<close> and a
  second \<^verbatim>\<open>Close\<close> panics on the closed channel; \<^verbatim>\<open>WaitForFileOnlySnapshot\<close> does not
  panic: it returns nil when the version is set, and \<^verbatim>\<open>ErrClosed\<close> when it enters its wait
  loop.
\<close>

theorem closed_operations_panic:
  "(Snapshot_Close st s = Inr (r, st') \<longrightarrow> s_db (snaps st' s) = None) \<and>
   (s_db (snaps st s) = None \<longrightarrow>
      Snapshot_Get getInternal st s key = Inl (PanicErr ErrClosed) \<and>
      Snapshot_NewIter st s o' = Inl (PanicErr ErrClosed) \<and>
      Snapshot_NewIterWithContext st s o' = Inl (PanicErr ErrClosed) \<and>
      Snapshot_ScanInternal f st s lower upper = Inl (PanicErr ErrClosed) \<and>
      Snapshot_Close st s = Inl (PanicErr ErrClosed)) \<and>
   (EFOS_Close st es = Inr (r', st'') \<longrightarrow> es_closed (efoss st'' es)) \<and>
   (es_closed (efoss st es) \<longrightarrow>
      EFOS_NewIter st es o' = Inl (PanicErr ErrClosed) \<and>
      EFOS_NewIterWithContext st es o' = Inl (PanicErr ErrClosed) \<and>
      EFOS_Close st es = Inl CloseOfClosedChannel \<and>
      (es_vers (efoss st es) \<noteq> None \<longrightarrow>
         EFOS_WaitForFileOnlySnapshot eu st es dur = Inr (Returned None, st)) \<and>
      (es_vers (efoss st es) = None \<and> es_db (efoss st es) \<noteq> None \<and>
       eu < es_seqNum (efoss st es) \<longrightarrow>
         EFOS_WaitForFileOnlySnapshot eu st es dur = Inr (Returned (Some ErrClosed), st)))"
proof -
  have 1: "Snapshot_Close st s = Inr (r, st') \<longrightarrow> s_db (snaps st' s) = None"
    by (auto simp: Snapshot_Close_def split: if_splits dest: closeLocked_frame)
  have 2: "s_db (snaps st s) = None \<longrightarrow>
      Snapshot_Get getInternal st s key = Inl (PanicErr ErrClosed) \<and>
      Snapshot_NewIter st s o' = Inl (PanicErr ErrClosed) \<and>
      Snapshot_NewIterWithContext st s o' = Inl (PanicErr ErrClosed) \<and>
      Snapshot_ScanInternal f st s lower upper = Inl (PanicErr ErrClosed) \<and>
      Snapshot_Close st s = Inl (PanicErr ErrClosed)"
    by (simp add: Snapshot_Get_def Snapshot_NewIter_def Snapshot_NewIterWithContext_def
        Snapshot_ScanInternal_def Snapshot_Close_def)
  have 3: "EFOS_Close st es = Inr (r', st'') \<longrightarrow> es_closed (efoss st'' es)"
    by (auto dest: EFOS_Close_closed)
  have 4: "es_closed (efoss st es) \<longrightarrow>
      EFOS_NewIter st es o' = Inl (PanicErr ErrClosed) \<and>
      EFOS_NewIterWithContext st es o' = Inl (PanicErr ErrClosed) \<and>
      EFOS_Close st es = Inl CloseOfClosedChannel \<and>
      (es_vers (efoss st es) \<noteq> None \<longrightarrow>
         EFOS_WaitForFileOnlySnapshot eu st es dur = Inr (Returned None, st)) \<and>
      (es_vers (efoss st es) = None \<and> es_db (efoss st es) \<noteq> None \<and>
       eu < es_seqNum (efoss st es) \<longrightarrow>
         EFOS_WaitForFileOnlySnapshot eu st es dur = Inr (Returned (Some ErrClosed), st))"
    by (auto simp: EFOS_NewIter_def EFOS_NewIterWithContext_def EFOS_Close_def
        EFOS_WaitForFileOnlySnapshot_def Let_def)
  from 1 2 3 4 show ?thesis by blast
qed

text \<open>
  Claim C3 as stated fails for \<^verbatim>\<open>WaitForFileOnlySnapshot\<close>, a public operation: on a closed
  EFOS in the file-only phase it completes and returns nil, and on a closed EFOS in the
  memtable-pinned phase it returns the error \<^verbatim>\<open>ErrClosed\<close>; neither is a panic.
\<close>

theorem closed_wait_counterexample:
  "EFOS_Close st_file_only 0 = Inr (None, st_file_only_closed) \<and>
   EFOS_WaitForFileOnlySnapshot 0 st_file_only_closed 0 0 =
     Inr (Returned None, st_file_only_closed) \<and>
   EFOS_Close st_pinned 0 = Inr (None, st_pinned_closed) \<and>
   EFOS_WaitForFileOnlySnapshot 0 st_pinned_closed 0 0 =
     Inr (Returned (Some ErrClosed), st_pinned_closed)"
  by (simp add: st_file_only_closed_eq st_pinned_closed_eq EFOS_WaitForFileOnlySnapshot_def
      st_file_only_closed_efos st_pinned_closed_efos st_file_only_efos st_pinned_efos)

text \<open>
  \<^verbatim>\<open>EventuallyFileOnlySnapshot.ScanInternal\<close> tests \<^verbatim>\<open>es.db == nil\<close> for closedness, but
  \<^verbatim>\<open>Close\<close> never clears \<^verbatim>\<open>es.db\<close>: after \<^verbatim>\<open>Close\<close> the scan does not panic and builds an
  iterator on the version that \<^verbatim>\<open>Close\<close> has released.
\<close>

lemma ScanInternal_after_Close:
  "EFOS_Close st_file_only 0 = Inr (None, st_file_only_closed) \<and>
   EFOS_ScanInternal (\<lambda>it. None) st_file_only_closed 0 ''a'' ''c'' =
     Inr (None, emit [NewInternalIter \<lparr>io_seqNum = 10, io_vers = Some 7, io_readState = None\<rparr>,
                      InternalIter_close] st_file_only_closed)"
  by (simp add: st_file_only_closed_eq EFOS_ScanInternal_def st_file_only_closed_efos
      st_file_only_efos Let_def)

theorem closed_operations_panic_witness:
  "Snapshot_Close st_two 1 = Inr (None, st_of (Snapshot_Close st_two 1)) \<and>
   Snapshot_Get (\<lambda>key s. (key, s)) (st_of (Snapshot_Close st_two 1)) 1 ''k'' =
     Inl (PanicErr ErrClosed) \<and>
   Snapshot_Close (st_of (Snapshot_Close st_two 1)) 1 = Inl (PanicErr ErrClosed) \<and>
   EFOS_Close st_file_only 0 = Inr (None, st_file_only_closed) \<and>
   EFOS_NewIterWithContext st_file_only_closed 0 None = Inl (PanicErr ErrClosed) \<and>
   EFOS_Close st_file_only_closed 0 = Inl CloseOfClosedChannel"
proof -
  let ?st' = "st_of (Snapshot_Close st_two 1)"
  have a: "Snapshot_Close st_two 1 = Inr (None, ?st')"
    by (simp add: st_of_def Snapshot_Close_def Snapshot_closeLocked_def snapshotList_remove_def
        snapshotList_earliest_def snapshotList_empty_def st_two_def st_open_def ex_db_def
        heap_two_eq nilSnapshot_def Let_def emit_def)
  from closed_operations_panic[where st = st_two and s = 1 and r = None and st' = ?st'] a
  have n: "s_db (snaps ?st' 1) = None" by blast
  from closed_operations_panic[where st = ?st' and s = 1 and key = "''k''"
      and getInternal = "\<lambda>key s. (key, s)"] n
  have b: "Snapshot_Get (\<lambda>key s. (key, s)) ?st' 1 ''k'' = Inl (PanicErr ErrClosed)"
    "Snapshot_Close ?st' 1 = Inl (PanicErr ErrClosed)" by blast+
  from closed_operations_panic[where st = st_file_only and es = 0 and r' = None
      and st'' = st_file_only_closed] st_file_only_closed_eq
  have c: "es_closed (efoss st_file_only_closed 0)" by blast
  from closed_operations_panic[where st = st_file_only_closed and es = 0 and o' = None] c
  have d: "EFOS_NewIterWithContext st_file_only_closed 0 None = Inl (PanicErr ErrClosed)"
    "EFOS_Close st_file_only_closed 0 = Inl CloseOfClosedChannel" by blast+
  from a b st_file_only_closed_eq d show ?thesis by blast
qed

subsection \<open>The single phase of an EFOS\<close>

lemma make_frame:
  assumes "DB_makeEventuallyFileOnlySnapshot ovl st krs ikrs = Inr (es', st')"
  shows "es' = efos_alloc st \<and> efos_alloc st' = Suc (efos_alloc st) \<and>
     (\<forall>e. e \<noteq> es' \<longrightarrow> efoss st' e = efoss st e) \<and>
     (memtable_pinned (efoss st' es') \<or> file_only (efoss st' es')) \<and>
     \<not> es_closed (efoss st' es')"
  using assms
  by (auto simp: DB_makeEventuallyFileOnlySnapshot_def Let_def emit_def memtable_pinned_def
      file_only_def split: if_splits sum.splits)

lemma transition_frame:
  assumes "EFOS_transitionToFileOnlySnapshot st es' v = Inr (r, st')"
  shows "efos_alloc st' = efos_alloc st \<and>
     (\<forall>e. e \<noteq> es' \<longrightarrow> efoss st' e = efoss st e) \<and>
     (es_closed (efoss st es') \<longrightarrow> efoss st' es' = efoss st es') \<and>
     (\<not> es_closed (efoss st es') \<longrightarrow>
        efoss st' es' = (efoss st es')\<lparr>es_vers := Some v, es_snap := None,
                                        es_readState := None\<rparr>)"
proof (cases "es_closed (efoss st es')")
  case True
  with assms show ?thesis
    by (auto simp: EFOS_transitionToFileOnlySnapshot_def emit_def)
next
  case False
  let ?st1 = "st\<lparr>efoss := (efoss st)(es' :=
      (efoss st es')\<lparr>es_vers := Some v, es_snap := None, es_readState := None\<rparr>)\<rparr>"
  from assms False obtain s rs where
    "Snapshot_closeLocked (emit [ReadState_unrefLocked rs] (emit [Transitioned_Broadcast es'] ?st1)) s
       = Inr (r, st')"
    by (auto simp: EFOS_transitionToFileOnlySnapshot_def Let_def split: if_splits option.splits)
  from closeLocked_frame[OF this] False show ?thesis by (simp add: emit_def)
qed

lemma release_frame:
  "EFOS_releaseReadState st es' = Inr st' \<Longrightarrow>
   efoss st' = efoss st \<and> efos_alloc st' = efos_alloc st"
  by (auto simp: EFOS_releaseReadState_def emit_def Let_def split: if_splits option.splits)

lemma wait_frame:
  "EFOS_WaitForFileOnlySnapshot eu st es' dur = Inr (w, st') \<Longrightarrow>
   efoss st' = efoss st \<and> efos_alloc st' = efos_alloc st"
  by (auto simp: EFOS_WaitForFileOnlySnapshot_def emit_def Let_def
      split: if_splits option.splits)

lemma scan_frame:
  "EFOS_ScanInternal f st es' lower upper = Inr (r, st') \<Longrightarrow>
   efoss st' = efoss st \<and> efos_alloc st' = efos_alloc st"
  by (auto simp: EFOS_ScanInternal_def emit_def Let_def split: if_splits)

lemma snapshot_scan_frame:
  "Snapshot_ScanInternal f st s lower upper = Inr (r, st') \<Longrightarrow>
   efoss st' = efoss st \<and> efos_alloc st' = efos_alloc st"
  by (auto simp: Snapshot_ScanInternal_def emit_def Let_def split: if_splits)

lemma snapshot_close_frame:
  "Snapshot_Close st s = Inr (r, st') \<Longrightarrow>
   efoss st' = efoss st \<and> efos_alloc st' = efos_alloc st"
  by (auto simp: Snapshot_Close_def split: if_splits dest: closeLocked_frame)

lemma EFOS_Close_frame:
  assumes "EFOS_Close st es' = Inr (r, st')"
  shows "efos_alloc st' = efos_alloc st \<and> (\<forall>e. e \<noteq> es' \<longrightarrow> efoss st' e = efoss st e)"
proof -
  let ?st1 = "st\<lparr>efoss := (efoss st)(es' := (efoss st es')\<lparr>es_closed := True\<rparr>)\<rparr>"
  from assms have nc: "\<not> es_closed (efoss st es')"
    by (auto simp: EFOS_Close_def split: if_splits)
  obtain r2 st2 where
    c: "(case es_snap (efoss ?st1 es') of None \<Rightarrow> Inr (None, ?st1)
         | Some s \<Rightarrow> Snapshot_closeLocked ?st1 s) = Inr (r2, st2)"
    and e: "efoss st' = efoss st2" "efos_alloc st' = efos_alloc st2"
    using assms nc
    by (auto simp: EFOS_Close_def Let_def emit_def split: option.splits sum.splits if_splits)
  have "efoss st2 = efoss ?st1 \<and> efos_alloc st2 = efos_alloc ?st1"
    using c by (auto split: option.splits dest: closeLocked_frame)
  with e show ?thesis by simp
qed

lemma efos_reach_inv: "efos_reach ovl es st \<Longrightarrow> efos_inv es st"
proof (induction rule: efos_reach.induct)
  case (efos_made st0 krs ikrs st)
  from make_frame[OF this] show ?case by (auto simp: efos_inv_def)
next
  case (efos_transition st es' v r st')
  from transition_frame[OF efos_transition.hyps(2)] efos_transition.IH
  show ?case
    by (cases "es' = es") (auto simp: efos_inv_def file_only_def memtable_pinned_def)
next
  case (efos_excise st es')
  then show ?case
    by (auto simp: efos_inv_def file_only_def memtable_pinned_def)
next
  case (efos_release st es' st')
  from release_frame[OF efos_release.hyps(2)] efos_release.IH
  show ?case by (simp add: efos_inv_def)
next
  case (efos_wait st eu es' dur w st')
  from wait_frame[OF efos_wait.hyps(2)] efos_wait.IH
  show ?case by (simp add: efos_inv_def)
next
  case (efos_scan st f es' lower upper r st')
  from scan_frame[OF efos_scan.hyps(2)] efos_scan.IH
  show ?case by (simp add: efos_inv_def)
next
  case (efos_make_other st krs ikrs es' st')
  from make_frame[OF efos_make_other.hyps(2)] efos_make_other.IH
  show ?case by (auto simp: efos_inv_def)
next
  case (efos_close_other st es' r st')
  from EFOS_Close_frame[OF efos_close_other.hyps(3)] efos_close_other.hyps(2)
    efos_close_other.IH
  show ?case by (simp add: efos_inv_def)
next
  case (efos_snapshot_close st s r st')
  from snapshot_close_frame[OF efos_snapshot_close.hyps(2)] efos_snapshot_close.IH
  show ?case by (simp add: efos_inv_def)
next
  case (efos_snapshot_scan st f s lower upper r st')
  from snapshot_scan_frame[OF efos_snapshot_scan.hyps(2)] efos_snapshot_scan.IH
  show ?case by (simp add: efos_inv_def)
next
  case (efos_engine st st')
  then show ?case by (simp add: efos_inv_def)
qed

lemma transition_file_only_panics:
  "\<not> es_closed (efoss st es) \<Longrightarrow> es_snap (efoss st es) = None \<Longrightarrow>
   EFOS_transitionToFileOnlySnapshot st es v =
     Inl (PanicMsg ''pebble: tried to transition an eventually-file-only-snapshot twice'')"
  by (simp add: EFOS_transitionToFileOnlySnapshot_def)

text \<open>
  Claim C2. In every state between the end of its construction and its \<^verbatim>\<open>Close\<close>,
  whatever the engine and the methods of this file have done in between, an
  EFOS is in exactly one phase: either \<^verbatim>\<open>snap\<close> and \<^verbatim>\<open>readState\<close> are set and \<^verbatim>\<open>vers\<close> is
  nil, or \<^verbatim>\<open>vers\<close> is set and \<^verbatim>\<open>snap\<close> and \<^verbatim>\<open>readState\<close> are nil. A transition that
  returns leaves it in the file-only phase, with the pair cleared, and any further
  \<^verbatim>\<open>transitionToFileOnlySnapshot\<close> on it, as on every EFOS in the file-only phase that is
  not closed, panics and repopulates nothing.
\<close>

theorem efos_single_phase:
  assumes "efos_reach ovl es st"
  shows "(memtable_pinned (efoss st es) \<and> \<not> file_only (efoss st es) \<or>
          file_only (efoss st es) \<and> \<not> memtable_pinned (efoss st es)) \<and>
         (\<forall>v r st' v'. EFOS_transitionToFileOnlySnapshot st es v = Inr (r, st') \<longrightarrow>
            efos_reach ovl es st' \<and> file_only (efoss st' es) \<and>
            es_vers (efoss st' es) = Some v \<and>
            EFOS_transitionToFileOnlySnapshot st' es v' = Inl (PanicMsg
              ''pebble: tried to transition an eventually-file-only-snapshot twice'')) \<and>
         (file_only (efoss st es) \<longrightarrow>
            (\<forall>v. EFOS_transitionToFileOnlySnapshot st es v = Inl (PanicMsg
              ''pebble: tried to transition an eventually-file-only-snapshot twice'')))"
proof -
  from efos_reach_inv[OF assms] have nc: "\<not> es_closed (efoss st es)"
    and ph: "memtable_pinned (efoss st es) \<or> file_only (efoss st es)"
    by (simp_all add: efos_inv_def)
  have 1: "memtable_pinned (efoss st es) \<and> \<not> file_only (efoss st es) \<or>
          file_only (efoss st es) \<and> \<not> memtable_pinned (efoss st es)"
    using ph by (auto simp: memtable_pinned_def file_only_def)
  have 2: "\<forall>v r st' v'. EFOS_transitionToFileOnlySnapshot st es v = Inr (r, st') \<longrightarrow>
            efos_reach ovl es st' \<and> file_only (efoss st' es) \<and>
            es_vers (efoss st' es) = Some v \<and>
            EFOS_transitionToFileOnlySnapshot st' es v' = Inl (PanicMsg
              ''pebble: tried to transition an eventually-file-only-snapshot twice'')"
  proof (intro allI impI)
    fix v r st' v'
    assume t: "EFOS_transitionToFileOnlySnapshot st es v = Inr (r, st')"
    from assms t have r': "efos_reach ovl es st'" by (rule efos_transition)
    from transition_frame[OF t] nc
    have e: "efoss st' es = (efoss st es)\<lparr>es_vers := Some v, es_snap := None,
        es_readState := None\<rparr>" by simp
    then have fo: "file_only (efoss st' es)" and vv: "es_vers (efoss st' es) = Some v"
      and sn: "es_snap (efoss st' es) = None" and nc': "\<not> es_closed (efoss st' es)"
      using nc by (simp_all add: file_only_def)
    from transition_file_only_panics[OF nc' sn] r' fo vv
    show "efos_reach ovl es st' \<and> file_only (efoss st' es) \<and>
            es_vers (efoss st' es) = Some v \<and>
            EFOS_transitionToFileOnlySnapshot st' es v' = Inl (PanicMsg
              ''pebble: tried to transition an eventually-file-only-snapshot twice'')"
      by simp
  qed
  have 3: "file_only (efoss st es) \<longrightarrow>
            (\<forall>v. EFOS_transitionToFileOnlySnapshot st es v = Inl (PanicMsg
              ''pebble: tried to transition an eventually-file-only-snapshot twice''))"
    using nc by (simp add: file_only_def transition_file_only_panics)
  from 1 2 3 show ?thesis by blast
qed

lemma st_pinned_transition:
  "EFOS_transitionToFileOnlySnapshot st_pinned 0 8 =
     Inr (None, st_of (EFOS_transitionToFileOnlySnapshot st_pinned 0 8))"
  by (simp add: st_of_def EFOS_transitionToFileOnlySnapshot_def st_pinned_efos Let_def
      Snapshot_closeLocked_def snapshotList_remove_def snapshotList_earliest_def
      snapshotList_empty_def st_pinned_snaps st_pinned_rest ex_db_def nilSnapshot_def emit_def)

theorem efos_single_phase_witness:
  "efos_reach ovl_second 0 st_pinned \<and> memtable_pinned (efoss st_pinned 0) \<and>
   \<not> file_only (efoss st_pinned 0) \<and>
   (\<exists>st'. EFOS_transitionToFileOnlySnapshot st_pinned 0 8 = Inr (None, st') \<and>
      file_only (efoss st' 0) \<and> es_vers (efoss st' 0) = Some 8 \<and>
      EFOS_transitionToFileOnlySnapshot st' 0 9 = Inl (PanicMsg
        ''pebble: tried to transition an eventually-file-only-snapshot twice'')) \<and>
   efos_reach ovl_second 0 st_pinned_later \<and>
   d_visibleSeqNum (db st_pinned_later) = 20 \<and> es_seqNum (efoss st_pinned_later 0) = 10 \<and>
   memtable_pinned (efoss st_pinned_later 0)"
proof -
  have r: "efos_reach ovl_second 0 st_pinned" using st_pinned_eq by (rule efos_made)
  have m: "memtable_pinned (efoss st_pinned 0)" "\<not> file_only (efoss st_pinned 0)"
    by (simp_all add: st_pinned_efos memtable_pinned_def file_only_def)
  from efos_single_phase[OF r] st_pinned_transition
  have "file_only (efoss (st_of (EFOS_transitionToFileOnlySnapshot st_pinned 0 8)) 0) \<and>
      es_vers (efoss (st_of (EFOS_transitionToFileOnlySnapshot st_pinned 0 8)) 0) = Some 8 \<and>
      EFOS_transitionToFileOnlySnapshot (st_of (EFOS_transitionToFileOnlySnapshot st_pinned 0 8))
        0 9 = Inl (PanicMsg
        ''pebble: tried to transition an eventually-file-only-snapshot twice'')"
    by blast
  with st_pinned_transition
  have t: "\<exists>st'. EFOS_transitionToFileOnlySnapshot st_pinned 0 8 = Inr (None, st') \<and>
      file_only (efoss st' 0) \<and> es_vers (efoss st' 0) = Some 8 \<and>
      EFOS_transitionToFileOnlySnapshot st' 0 9 = Inl (PanicMsg
        ''pebble: tried to transition an eventually-file-only-snapshot twice'')"
    by blast
  have f: "efoss st_pinned_later = efoss st_pinned"
    "efos_alloc st_pinned_later = efos_alloc st_pinned"
    by (simp_all add: st_pinned_later_def)
  from r f have r2: "efos_reach ovl_second 0 st_pinned_later" by (rule efos_engine)
  have v: "d_visibleSeqNum (db st_pinned_later) = 20"
    "es_seqNum (efoss st_pinned_later 0) = 10"
    and nf: "\<not> file_only (efoss st_pinned_later 0)"
    by (simp_all add: st_pinned_later_def st_pinned_efos file_only_def)
  from efos_single_phase[OF r2] nf have m2: "memtable_pinned (efoss st_pinned_later 0)"
    by blast
  from r m t r2 v m2 show ?thesis by (intro conjI)
qed

subsection \<open>Construction of an EFOS\<close>

lemma queueIsFileOnly_iff:
  "queueIsFileOnly ovl q ikrs \<longleftrightarrow> (\<forall>mem \<in> set q. \<not> ovl mem ikrs)"
  by (induction q) auto

lemma links_upd_other:
  assumes "a \<notin> set xs" "a \<noteq> l" "s_list v \<noteq> Some l" "links h l xs"
  shows "links (h(a := v)) l xs"
proof -
  from assms(4) have ch: "chain h l xs l" and d: "distinct xs" and l: "l \<notin> set xs"
    and lk: "linked h l = set xs" by (simp_all add: links_def)
  have "chain (h(a := v)) l xs l = chain h l xs l"
    using assms(1,2) by (intro chain_cong) auto
  moreover have "linked (h(a := v)) l = linked h l"
    using assms(1,3) lk by (auto simp: linked_def)
  ultimately show ?thesis using ch d l lk by (simp add: links_def)
qed

lemma make_file_only_result:
  assumes "queueIsFileOnly ovl (d_mem_queue (db st)) ikrs"
  shows "DB_makeEventuallyFileOnlySnapshot ovl st krs ikrs =
    Inr (efos_alloc st,
      st\<lparr>efoss := (efoss st)(efos_alloc st :=
             \<lparr>es_snap = None, es_readState = None, es_vers = Some (d_currentVersion (db st)),
              es_protectedRanges = krs, es_excised = False, es_db = Some TheDB,
              es_seqNum = d_visibleSeqNum (db st), es_closed = False\<rparr>),
         efos_alloc := Suc (efos_alloc st),
         trace := trace st @ [Version_Ref (d_currentVersion (db st))]\<rparr>)"
  using assms by (simp add: DB_makeEventuallyFileOnlySnapshot_def Let_def emit_def)

lemma make_pinned_result:
  assumes "\<not> queueIsFileOnly ovl (d_mem_queue (db st)) ikrs"
    and "snapshotList_pushBack
           ((snaps st)(snap_alloc st :=
              \<lparr>s_db = Some TheDB, s_seqNum = d_visibleSeqNum (db st),
               s_efos = Some (efos_alloc st), s_list = None, s_prev = None, s_next = None\<rparr>))
           (d_snapshots (db st)) (snap_alloc st) = Inr h'"
  shows "DB_makeEventuallyFileOnlySnapshot ovl st krs ikrs =
    Inr (efos_alloc st,
      st\<lparr>snaps := h', snap_alloc := Suc (snap_alloc st),
         efoss := (efoss st)(efos_alloc st :=
             \<lparr>es_snap = Some (snap_alloc st), es_readState = Some (d_readState (db st)),
              es_vers = None, es_protectedRanges = krs, es_excised = False,
              es_db = Some TheDB, es_seqNum = d_visibleSeqNum (db st), es_closed = False\<rparr>),
         efos_alloc := Suc (efos_alloc st),
         trace := trace st @ [ReadState_ref (d_readState (db st))]\<rparr>)"
  using assms by (simp add: DB_makeEventuallyFileOnlySnapshot_def Let_def emit_def)

text \<open>
  Claim C8. \<^verbatim>\<open>makeEventuallyFileOnlySnapshot\<close> gives the EFOS the engine's visible
  sequence number. When no memtable of the queue overlaps the internal key ranges, the
  EFOS starts in the file-only phase: \<^verbatim>\<open>vers\<close> is the current version, referenced exactly
  once, and no Snapshot is allocated or linked. Otherwise, on an initialised registry, it
  starts in the memtable-pinned phase: a new Snapshot with the same sequence number,
  owned by the EFOS, is linked at the tail of the engine's registry, and the read state
  is loaded (one reference) and stored.
\<close>

theorem make_EFOS_phase:
  "((\<forall>mem \<in> set (d_mem_queue (db st)). \<not> ovl mem ikrs) \<longrightarrow>
      (\<exists>es st'. DB_makeEventuallyFileOnlySnapshot ovl st krs ikrs = Inr (es, st') \<and>
         es_seqNum (efoss st' es) = d_visibleSeqNum (db st) \<and>
         file_only (efoss st' es) \<and>
         es_vers (efoss st' es) = Some (d_currentVersion (db st)) \<and>
         trace st' = trace st @ [Version_Ref (d_currentVersion (db st))] \<and>
         snaps st' = snaps st \<and> snap_alloc st' = snap_alloc st)) \<and>
   ((\<exists>mem \<in> set (d_mem_queue (db st)). ovl mem ikrs) \<and>
    links (snaps st) (d_snapshots (db st)) xs \<and>
    (\<forall>a \<in> set (d_snapshots (db st) # xs). a < snap_alloc st) \<longrightarrow>
      (\<exists>es s st'. DB_makeEventuallyFileOnlySnapshot ovl st krs ikrs = Inr (es, st') \<and>
         es_seqNum (efoss st' es) = d_visibleSeqNum (db st) \<and>
         memtable_pinned (efoss st' es) \<and>
         es_snap (efoss st' es) = Some s \<and>
         es_readState (efoss st' es) = Some (d_readState (db st)) \<and>
         s_seqNum (snaps st' s) = d_visibleSeqNum (db st) \<and>
         s_db (snaps st' s) = Some TheDB \<and> s_efos (snaps st' s) = Some es \<and>
         s \<notin> linked (snaps st) (d_snapshots (db st)) \<and>
         links (snaps st') (d_snapshots (db st')) (xs @ [s]) \<and>
         trace st' = trace st @ [ReadState_ref (d_readState (db st))]))"
proof (intro conjI impI)
  assume "\<forall>mem \<in> set (d_mem_queue (db st)). \<not> ovl mem ikrs"
  then have "queueIsFileOnly ovl (d_mem_queue (db st)) ikrs" by (simp add: queueIsFileOnly_iff)
  from make_file_only_result[OF this, of krs]
  show "\<exists>es st'. DB_makeEventuallyFileOnlySnapshot ovl st krs ikrs = Inr (es, st') \<and>
         es_seqNum (efoss st' es) = d_visibleSeqNum (db st) \<and>
         file_only (efoss st' es) \<and>
         es_vers (efoss st' es) = Some (d_currentVersion (db st)) \<and>
         trace st' = trace st @ [Version_Ref (d_currentVersion (db st))] \<and>
         snaps st' = snaps st \<and> snap_alloc st' = snap_alloc st"
    by (simp add: file_only_def)
next
  let ?l = "d_snapshots (db st)"
  let ?s = "snap_alloc st"
  let ?v = "\<lparr>s_db = Some TheDB, s_seqNum = d_visibleSeqNum (db st),
             s_efos = Some (efos_alloc st), s_list = None, s_prev = None, s_next = None\<rparr>"
  let ?h5 = "(snaps st)(?s := ?v)"
  assume a: "(\<exists>mem \<in> set (d_mem_queue (db st)). ovl mem ikrs) \<and>
    links (snaps st) ?l xs \<and> (\<forall>a \<in> set (?l # xs). a < snap_alloc st)"
  then have nq: "\<not> queueIsFileOnly ovl (d_mem_queue (db st)) ikrs"
    by (simp add: queueIsFileOnly_iff)
  from a have L: "links (snaps st) ?l xs" and sx: "?s \<notin> set xs" and sl: "?s \<noteq> ?l"
    by auto
  from L sx have nl: "?s \<notin> linked (snaps st) ?l" by (simp add: links_def)
  have L5: "links ?h5 ?l xs" by (rule links_upd_other[OF sx sl _ L]) simp
  from links_pushBack[OF L5 sx sl] obtain h' where
    pb: "snapshotList_pushBack ?h5 ?l ?s = Inr h'"
    and L': "links h' ?l (xs @ [?s])"
    and f: "\<And>a. s_seqNum (h' a) = s_seqNum (?h5 a)" "\<And>a. s_db (h' a) = s_db (?h5 a)"
      "\<And>a. s_efos (h' a) = s_efos (?h5 a)"
    by auto
  from make_pinned_result[OF nq pb, of krs] L' nl
  show "\<exists>es s st'. DB_makeEventuallyFileOnlySnapshot ovl st krs ikrs = Inr (es, st') \<and>
         es_seqNum (efoss st' es) = d_visibleSeqNum (db st) \<and>
         memtable_pinned (efoss st' es) \<and>
         es_snap (efoss st' es) = Some s \<and>
         es_readState (efoss st' es) = Some (d_readState (db st)) \<and>
         s_seqNum (snaps st' s) = d_visibleSeqNum (db st) \<and>
         s_db (snaps st' s) = Some TheDB \<and> s_efos (snaps st' s) = Some es \<and>
         s \<notin> linked (snaps st) (d_snapshots (db st)) \<and>
         links (snaps st') (d_snapshots (db st')) (xs @ [s]) \<and>
         trace st' = trace st @ [ReadState_ref (d_readState (db st))]"
    by (simp add: memtable_pinned_def f)
qed

lemma st_open_links: "links (snaps st_open) (d_snapshots (db st_open)) []"
  by (simp add: st_open_def ex_db_def links_init linked_def nilSnapshot_def)

theorem make_EFOS_phase_witness:
  "links (snaps st_open) (d_snapshots (db st_open)) [] \<and>
   (\<exists>es st'. DB_makeEventuallyFileOnlySnapshot ovl_none st_open [(''a'', ''c'')] [(''a'', ''c'')]
        = Inr (es, st') \<and>
      file_only (efoss st' es) \<and> es_vers (efoss st' es) = Some 7 \<and>
      trace st' = [Version_Ref 7]) \<and>
   (\<exists>es s st'. DB_makeEventuallyFileOnlySnapshot ovl_second st_open [(''a'', ''c'')] [(''a'', ''c'')]
        = Inr (es, st') \<and>
      memtable_pinned (efoss st' es) \<and> es_snap (efoss st' es) = Some s \<and>
      s_seqNum (snaps st' s) = 10 \<and>
      links (snaps st') (d_snapshots (db st')) [s] \<and>
      trace st' = [ReadState_ref 3])"
proof -
  have q1: "\<forall>mem \<in> set (d_mem_queue (db st_open)). \<not> ovl_none mem [(''a'', ''c'')]"
    by (simp add: ovl_none_def)
  have q2: "\<exists>mem \<in> set (d_mem_queue (db st_open)). ovl_second mem [(''a'', ''c'')]"
    by (simp add: ovl_second_def st_open_def ex_db_def)
  have al: "\<forall>a \<in> set (d_snapshots (db st_open) # []). a < snap_alloc st_open"
    by (simp add: st_open_def ex_db_def)
  have v: "d_currentVersion (db st_open) = 7" "d_readState (db st_open) = 3"
    "d_visibleSeqNum (db st_open) = 10" "trace st_open = []"
    by (simp_all add: st_open_def ex_db_def)
  note fo = make_EFOS_phase[of st_open ovl_none "[(''a'', ''c'')]" "[(''a'', ''c'')]" "[]",
      THEN conjunct1, THEN mp, OF q1]
  then obtain es st' where
    "DB_makeEventuallyFileOnlySnapshot ovl_none st_open [(''a'', ''c'')] [(''a'', ''c'')]
       = Inr (es, st')"
    "file_only (efoss st' es)" "es_vers (efoss st' es) = Some (d_currentVersion (db st_open))"
    "trace st' = trace st_open @ [Version_Ref (d_currentVersion (db st_open))]"
    by blast
  then have 1: "\<exists>es st'. DB_makeEventuallyFileOnlySnapshot ovl_none st_open [(''a'', ''c'')]
        [(''a'', ''c'')] = Inr (es, st') \<and>
      file_only (efoss st' es) \<and> es_vers (efoss st' es) = Some 7 \<and>
      trace st' = [Version_Ref 7]"
    by (auto simp: v)
  from q2 st_open_links al
  have h2: "(\<exists>mem \<in> set (d_mem_queue (db st_open)). ovl_second mem [(''a'', ''c'')]) \<and>
    links (snaps st_open) (d_snapshots (db st_open)) [] \<and>
    (\<forall>a \<in> set (d_snapshots (db st_open) # []). a < snap_alloc st_open)" by blast
  note mp = make_EFOS_phase[of st_open ovl_second "[(''a'', ''c'')]" "[(''a'', ''c'')]" "[]",
      THEN conjunct2, THEN mp, OF h2]
  then obtain es2 s st2 where
    "DB_makeEventuallyFileOnlySnapshot ovl_second st_open [(''a'', ''c'')] [(''a'', ''c'')]
       = Inr (es2, st2)"
    "memtable_pinned (efoss st2 es2)" "es_snap (efoss st2 es2) = Some s"
    "s_seqNum (snaps st2 s) = d_visibleSeqNum (db st_open)"
    "links (snaps st2) (d_snapshots (db st2)) ([] @ [s])"
    "trace st2 = trace st_open @ [ReadState_ref (d_readState (db st_open))]"
    by blast
  then have 2: "\<exists>es s st'. DB_makeEventuallyFileOnlySnapshot ovl_second st_open [(''a'', ''c'')]
        [(''a'', ''c'')] = Inr (es, st') \<and>
      memtable_pinned (efoss st' es) \<and> es_snap (efoss st' es) = Some s \<and>
      s_seqNum (snaps st' s) = 10 \<and>
      links (snaps st') (d_snapshots (db st')) [s] \<and>
      trace st' = [ReadState_ref 3]"
    by (auto simp: v)
  from st_open_links 1 2 show ?thesis by blast
qed

subsection \<open>Closing an EFOS\<close>

lemma emit_Nil: "emit [] st = st"
  by (simp add: emit_def)

lemma EFOS_Close_result:
  assumes "\<not> es_closed (efoss st es)" and "es_db (efoss st es) \<noteq> None"
    and "(case es_snap (efoss st es) of
            None \<Rightarrow> Inr (None, st\<lparr>efoss := (efoss st)(es := (efoss st es)\<lparr>es_closed := True\<rparr>)\<rparr>)
          | Some s \<Rightarrow> Snapshot_closeLocked
              (st\<lparr>efoss := (efoss st)(es := (efoss st es)\<lparr>es_closed := True\<rparr>)\<rparr>) s)
         = Inr (None, st2)"
    and "efoss st2 es = (efoss st es)\<lparr>es_closed := True\<rparr>"
  shows "EFOS_Close st es =
    Inr (None,
      emit (case es_vers (efoss st es) of None \<Rightarrow> [] | Some v \<Rightarrow> [Version_UnrefLocked v])
        (emit (case es_readState (efoss st es) of
                 None \<Rightarrow> []
               | Some r \<Rightarrow> [ReadState_unrefLocked r, MaybeScheduleObsoleteTableDeletionLocked])
           st2))"
  using assms
  by (auto simp: EFOS_Close_def Let_def emit_Nil split: option.splits)
    (simp_all add: emit_def)

text \<open>
  Claim C5. \<^verbatim>\<open>EventuallyFileOnlySnapshot.Close\<close> on an open EFOS returns nil and makes,
  for each resource the EFOS holds, exactly one release: the read state is released once
  when \<^verbatim>\<open>readState\<close> is set and not at all otherwise, the version is released once when
  \<^verbatim>\<open>vers\<close> is set and not at all otherwise, and a wrapped Snapshot that is linked in the
  registry is closed, which unlinks it from the registry and leaves the registry
  well-formed without it. A second \<^verbatim>\<open>Close\<close> panics.
\<close>

theorem EFOS_Close_releases_once:
  assumes nc: "\<not> es_closed (efoss st es)" and dbn: "es_db (efoss st es) \<noteq> None"
    and sn: "\<forall>s. es_snap (efoss st es) = Some s \<longrightarrow>
               registry (snaps st) (d_snapshots (db st)) xs \<and> s \<in> set xs \<and>
               s_db (snaps st s) \<noteq> None"
  shows "\<exists>st' evs. EFOS_Close st es = Inr (None, st') \<and> trace st' = trace st @ evs \<and>
      (\<forall>r. count_list evs (ReadState_unrefLocked r) =
              (if es_readState (efoss st es) = Some r then 1 else 0)) \<and>
      (\<forall>v. count_list evs (Version_UnrefLocked v) =
              (if es_vers (efoss st es) = Some v then 1 else 0)) \<and>
      (\<forall>s. es_snap (efoss st es) = Some s \<longrightarrow>
              s \<notin> linked (snaps st') (d_snapshots (db st')) \<and> s_db (snaps st' s) = None \<and>
              registry (snaps st') (d_snapshots (db st')) (remove1 s xs)) \<and>
      (es_snap (efoss st es) = None \<longrightarrow> snaps st' = snaps st) \<and>
      EFOS_Close st' es = Inl CloseOfClosedChannel"
proof -
  let ?e = "efoss st es"
  let ?st1 = "st\<lparr>efoss := (efoss st)(es := ?e\<lparr>es_closed := True\<rparr>)\<rparr>"
  let ?rs = "case es_readState ?e of None \<Rightarrow> []
     | Some r \<Rightarrow> [ReadState_unrefLocked r, MaybeScheduleObsoleteTableDeletionLocked]"
  let ?vs = "case es_vers ?e of None \<Rightarrow> [] | Some v \<Rightarrow> [Version_UnrefLocked v]"
  let ?P = "\<lambda>st2 ev0. (case es_snap ?e of None \<Rightarrow> Inr (None, ?st1)
            | Some s \<Rightarrow> Snapshot_closeLocked ?st1 s) = Inr (None, st2) \<and>
      efoss st2 = efoss ?st1 \<and> db st2 = db st \<and> trace st2 = trace st @ ev0 \<and>
      (ev0 = [] \<or> ev0 = [MaybeScheduleCompactionPicker_pickElisionOnly]) \<and>
      (\<forall>s. es_snap ?e = Some s \<longrightarrow>
           s_db (snaps st2 s) = None \<and>
           registry (snaps st2) (d_snapshots (db st)) (remove1 s xs)) \<and>
      (es_snap ?e = None \<longrightarrow> snaps st2 = snaps st)"
  have "\<exists>st2 ev0. ?P st2 ev0"
  proof (cases "es_snap ?e")
    case None
    then have "?P ?st1 []" by simp
    then show ?thesis by (intro exI)
  next
    case (Some s)
    with sn have R: "registry (snaps ?st1) (d_snapshots (db ?st1)) xs" and sx: "s \<in> set xs"
      and sd: "s_db (snaps ?st1 s) \<noteq> None" by simp_all
    let ?ev = "if s_seqNum (snaps ?st1 s) <
              (case remove1 s xs of [] \<Rightarrow> MaxUint64 | z # _ \<Rightarrow> s_seqNum (snaps ?st1 z))
         then [MaybeScheduleCompactionPicker_pickElisionOnly] else []"
    from closeLocked_registry[OF R sx sd] obtain st2 where st2:
      "Snapshot_closeLocked ?st1 s = Inr (None, st2)"
      "registry (snaps st2) (d_snapshots (db st2)) (remove1 s xs)"
      "s_db (snaps st2 s) = None" "efoss st2 = efoss ?st1" "db st2 = db ?st1"
      "trace st2 = trace ?st1 @ ?ev"
      by (elim exE conjE)
    with Some have "?P st2 ?ev" by simp
    then show ?thesis by (intro exI)
  qed
  then obtain st2 ev0 where all: "?P st2 ev0" by (elim exE)
  from all have
    c: "(case es_snap ?e of None \<Rightarrow> Inr (None, ?st1)
            | Some s \<Rightarrow> Snapshot_closeLocked ?st1 s) = Inr (None, st2)"
    and ef: "efoss st2 = efoss ?st1" and d2: "db st2 = db st"
    and tr: "trace st2 = trace st @ ev0"
    and ev0: "ev0 = [] \<or> ev0 = [MaybeScheduleCompactionPicker_pickElisionOnly]"
    and sp: "\<forall>s. es_snap ?e = Some s \<longrightarrow>
           s_db (snaps st2 s) = None \<and>
           registry (snaps st2) (d_snapshots (db st)) (remove1 s xs)"
    and np: "es_snap ?e = None \<longrightarrow> snaps st2 = snaps st"
    by blast+
  let ?st' = "emit ?vs (emit ?rs st2)"
  from ef have ef': "efoss st2 es = ?e\<lparr>es_closed := True\<rparr>" by simp
  have res: "EFOS_Close st es = Inr (None, ?st')"
    by (rule EFOS_Close_result[OF nc dbn c ef'])
  have t: "trace ?st' = trace st @ (ev0 @ ?rs @ ?vs)" by (simp add: emit_def tr)
  have c1: "\<forall>r. count_list (ev0 @ ?rs @ ?vs) (ReadState_unrefLocked r) =
              (if es_readState ?e = Some r then 1 else 0)"
    using ev0 by (auto split: option.splits)
  have c2: "\<forall>v. count_list (ev0 @ ?rs @ ?vs) (Version_UnrefLocked v) =
              (if es_vers ?e = Some v then 1 else 0)"
    using ev0 by (auto split: option.splits)
  have s': "snaps ?st' = snaps st2" "db ?st' = db st" "efoss ?st' = efoss ?st1"
    by (simp_all add: emit_def d2 ef)
  have c3: "\<forall>s. es_snap ?e = Some s \<longrightarrow>
      s \<notin> linked (snaps ?st') (d_snapshots (db ?st')) \<and> s_db (snaps ?st' s) = None \<and>
      registry (snaps ?st') (d_snapshots (db ?st')) (remove1 s xs)"
  proof (intro allI impI)
    fix s assume a: "es_snap ?e = Some s"
    with sp have n: "s_db (snaps st2 s) = None"
      and R2: "registry (snaps st2) (d_snapshots (db st)) (remove1 s xs)" by simp_all
    from a sn have "registry (snaps st) (d_snapshots (db st)) xs" by simp
    then have "distinct xs" by (simp add: registry_def links_def)
    then have "s \<notin> set (remove1 s xs)" by simp
    moreover from R2 have "linked (snaps st2) (d_snapshots (db st)) = set (remove1 s xs)"
      by (simp add: registry_def links_def)
    ultimately have "s \<notin> linked (snaps st2) (d_snapshots (db st))" by simp
    with n R2 show "s \<notin> linked (snaps ?st') (d_snapshots (db ?st')) \<and>
      s_db (snaps ?st' s) = None \<and>
      registry (snaps ?st') (d_snapshots (db ?st')) (remove1 s xs)"
      by (simp add: s')
  qed
  have c4: "es_snap ?e = None \<longrightarrow> snaps ?st' = snaps st" using np by (simp add: s')
  have c5: "EFOS_Close ?st' es = Inl CloseOfClosedChannel"
    by (simp add: EFOS_Close_def s')
  show ?thesis
    by (rule exI[where x = "?st'"], rule exI[where x = "ev0 @ ?rs @ ?vs"])
      (intro conjI res t c1 c2 c3 c4 c5)
qed

lemma st_pinned_registry: "registry (snaps st_pinned) (d_snapshots (db st_pinned)) [1]"
  by (auto simp: registry_def links_def linked_def st_pinned_snaps st_pinned_rest ex_db_def
      nilSnapshot_def split: if_splits)

theorem EFOS_Close_releases_once_witness:
  "registry (snaps st_pinned) (d_snapshots (db st_pinned)) [1] \<and>
   es_snap (efoss st_pinned 0) = Some 1 \<and>
   (\<exists>st' evs. EFOS_Close st_pinned 0 = Inr (None, st') \<and>
      trace st' = trace st_pinned @ evs \<and>
      count_list evs (ReadState_unrefLocked 3) = 1 \<and>
      count_list evs (Version_UnrefLocked 7) = 0 \<and>
      1 \<notin> linked (snaps st') (d_snapshots (db st')) \<and>
      EFOS_Close st' 0 = Inl CloseOfClosedChannel) \<and>
   (\<exists>st' evs. EFOS_Close st_file_only 0 = Inr (None, st') \<and>
      trace st' = trace st_file_only @ evs \<and>
      count_list evs (Version_UnrefLocked 7) = 1 \<and>
      count_list evs (ReadState_unrefLocked 3) = 0 \<and>
      EFOS_Close st' 0 = Inl CloseOfClosedChannel)"
proof -
  have p: "\<not> es_closed (efoss st_pinned 0)" "es_db (efoss st_pinned 0) \<noteq> None"
    and ps: "es_snap (efoss st_pinned 0) = Some 1"
    and pr: "es_readState (efoss st_pinned 0) = Some 3" "es_vers (efoss st_pinned 0) = None"
    by (simp_all add: st_pinned_efos)
  have sd: "s_db (snaps st_pinned 1) \<noteq> None" by (simp add: st_pinned_snaps)
  have h: "\<forall>s. es_snap (efoss st_pinned 0) = Some s \<longrightarrow>
      registry (snaps st_pinned) (d_snapshots (db st_pinned)) [1] \<and> s \<in> set [1] \<and>
      s_db (snaps st_pinned s) \<noteq> None"
    using st_pinned_registry sd ps by simp
  from EFOS_Close_releases_once[OF p h] obtain st' evs where a:
    "EFOS_Close st_pinned 0 = Inr (None, st')" "trace st' = trace st_pinned @ evs"
    "\<forall>r. count_list evs (ReadState_unrefLocked r) =
       (if es_readState (efoss st_pinned 0) = Some r then 1 else 0)"
    "\<forall>v. count_list evs (Version_UnrefLocked v) =
       (if es_vers (efoss st_pinned 0) = Some v then 1 else 0)"
    "\<forall>s. es_snap (efoss st_pinned 0) = Some s \<longrightarrow>
       s \<notin> linked (snaps st') (d_snapshots (db st')) \<and> s_db (snaps st' s) = None \<and>
       registry (snaps st') (d_snapshots (db st')) (remove1 s [1])"
    "EFOS_Close st' 0 = Inl CloseOfClosedChannel"
    by (elim exE conjE)
  from a(3) pr have a3: "count_list evs (ReadState_unrefLocked 3) = 1" by simp
  from a(4) pr have a4: "count_list evs (Version_UnrefLocked 7) = 0" by simp
  from a(5) ps have a5: "1 \<notin> linked (snaps st') (d_snapshots (db st'))" by simp
  have 1: "\<exists>st' evs. EFOS_Close st_pinned 0 = Inr (None, st') \<and>
      trace st' = trace st_pinned @ evs \<and>
      count_list evs (ReadState_unrefLocked 3) = 1 \<and>
      count_list evs (Version_UnrefLocked 7) = 0 \<and>
      1 \<notin> linked (snaps st') (d_snapshots (db st')) \<and>
      EFOS_Close st' 0 = Inl CloseOfClosedChannel"
    by (rule exI[where x = st'], rule exI[where x = evs]) (intro conjI a(1,2,6) a3 a4 a5)
  have f: "\<not> es_closed (efoss st_file_only 0)" "es_db (efoss st_file_only 0) \<noteq> None"
    and fs: "es_snap (efoss st_file_only 0) = None"
    and fr: "es_readState (efoss st_file_only 0) = None" "es_vers (efoss st_file_only 0) = Some 7"
    by (simp_all add: st_file_only_efos)
  have hf: "\<forall>s. es_snap (efoss st_file_only 0) = Some s \<longrightarrow>
      registry (snaps st_file_only) (d_snapshots (db st_file_only)) [] \<and> s \<in> set [] \<and>
      s_db (snaps st_file_only s) \<noteq> None"
    using fs by simp
  from EFOS_Close_releases_once[OF f hf] obtain st'' evs' where b:
    "EFOS_Close st_file_only 0 = Inr (None, st'')" "trace st'' = trace st_file_only @ evs'"
    "\<forall>r. count_list evs' (ReadState_unrefLocked r) =
       (if es_readState (efoss st_file_only 0) = Some r then 1 else 0)"
    "\<forall>v. count_list evs' (Version_UnrefLocked v) =
       (if es_vers (efoss st_file_only 0) = Some v then 1 else 0)"
    "EFOS_Close st'' 0 = Inl CloseOfClosedChannel"
    by (elim exE conjE)
  from b(3) fr have b3: "count_list evs' (ReadState_unrefLocked 3) = 0" by simp
  from b(4) fr have b4: "count_list evs' (Version_UnrefLocked 7) = 1" by simp
  have 2: "\<exists>st' evs. EFOS_Close st_file_only 0 = Inr (None, st') \<and>
      trace st' = trace st_file_only @ evs \<and>
      count_list evs (Version_UnrefLocked 7) = 1 \<and>
      count_list evs (ReadState_unrefLocked 3) = 0 \<and>
      EFOS_Close st' 0 = Inl CloseOfClosedChannel"
    by (rule exI[where x = st''], rule exI[where x = evs']) (intro conjI b(1,2,5) b3 b4)
  from st_pinned_registry ps 1 2 show ?thesis by (intro conjI)
qed

end
